theory Spec2Isabelle
  imports Main "HOL-Library.Multiset"
begin

section \<open>Strings as the source handles them\<close>

text \<open>
  JavaScript strings are modelled as \<^typ>\<open>string\<close>. \<open>String.prototype.trim\<close> strips
  white space on both sides; the model knows the ASCII white space characters (space, tab,
  line feed, vertical tab, form feed, carriage return).
\<close>

definition isSpace :: "char \<Rightarrow> bool" where
  "isSpace c = (c = CHR '' '' \<or> c = CHR 0x09 \<or> c = CHR 0x0A \<or> c = CHR 0x0B
     \<or> c = CHR 0x0C \<or> c = CHR 0x0D)"

definition trim :: "string \<Rightarrow> string" where
  "trim s = rev (dropWhile isSpace (rev (dropWhile isSpace s)))"

text \<open>\<open>s.split(/\r?\n/)\<close>: a line break is a line feed, optionally preceded by one
  carriage return. The result always has at least one element.\<close>

fun split_lines :: "string \<Rightarrow> string list" where
  "split_lines [] = [[]]"
| "split_lines (c # cs) =
     (if c = CHR 0x0A then [] # split_lines cs
      else if c = CHR 0x0D \<and> take 1 cs = [CHR 0x0A] then [] # split_lines (drop 1 cs)
      else (case split_lines cs of
              l # ls \<Rightarrow> (c # l) # ls
            | [] \<Rightarrow> [[c]]))"

text \<open>\<open>stdout.split(/\r?\n/).map((s) => s.trim()).filter(Boolean)\<close>: the empty string is
  the only falsy string.\<close>

definition output_lines :: "string \<Rightarrow> string list" where
  "output_lines out = filter (\<lambda>s. s \<noteq> []) (map trim (split_lines out))"

section \<open>Git scope resolver\<close>

text \<open>
  The child process is the environment: \<open>git_spawn args cwd\<close> is what the \<open>close\<close> event of
  \<open>spawn('git', args, {cwd})\<close> reports (the exit code, \<open>None\<close> for \<open>null\<close>) together with
  the text collected from the child's standard output. Every invocation is appended to a
  log, so that a theorem can say which commands were run.
\<close>

record git_result =
  git_code :: int
  git_stdout :: string

type_synonym git_driver = "string list \<Rightarrow> string \<Rightarrow> int option \<times> string"
type_synonym git_log = "string list list"

definition git :: "git_driver \<Rightarrow> string list \<Rightarrow> string \<Rightarrow> git_log \<Rightarrow> git_result \<times> git_log" where
  "git git_spawn args cwd log =
     (case git_spawn args cwd of
        (code, out) \<Rightarrow>
          (\<lparr>git_code = (case code of None \<Rightarrow> 1 | Some c \<Rightarrow> c), git_stdout = out\<rparr>,
           log @ [args]))"

definition staged_args :: "string list" where
  "staged_args = [''diff'', ''--name-only'', ''--cached'', ''--diff-filter=ACMRTUXB'']"

text \<open>The upstream reference: an at sign followed by \<open>{u}\<close>.\<close>

definition upstream_ref :: string where
  "upstream_ref = CHR ''@'' # ''{u}''"

definition upstream_args :: "string list" where
  "upstream_args = [''rev-parse'', ''--abbrev-ref'', ''--symbolic-full-name'', upstream_ref]"

definition fallback_diff_args :: "string list" where
  "fallback_diff_args = [''diff'', ''--name-only'', ''HEAD~1'']"

definition merge_base_args :: "string list" where
  "merge_base_args = [''merge-base'', ''HEAD'', upstream_ref]"

definition range_diff_args :: "string \<Rightarrow> string list" where
  "range_diff_args base = [''diff'', ''--name-only'', base @ ''..HEAD'']"

definition getStagedFiles :: "git_driver \<Rightarrow> string \<Rightarrow> git_log \<Rightarrow> string list \<times> git_log" where
  "getStagedFiles g cwd log =
     (case git g staged_args cwd log of
        (r, log1) \<Rightarrow>
          if git_code r \<noteq> 0 then ([], log1)
          else (output_lines (git_stdout r), log1))"

definition getChangedFilesAgainstUpstream ::
  "git_driver \<Rightarrow> string \<Rightarrow> git_log \<Rightarrow> string list \<times> git_log" where
  "getChangedFilesAgainstUpstream g cwd log =
     (case git g upstream_args cwd log of
        (upstream, log1) \<Rightarrow>
          if git_code upstream \<noteq> 0 \<or> trim (git_stdout upstream) = [] then
            (case git g fallback_diff_args cwd log1 of
               (diff, log2) \<Rightarrow>
                 if git_code diff \<noteq> 0 then ([], log2)
                 else (output_lines (git_stdout diff), log2))
          else
            (case git g merge_base_args cwd log1 of
               (mergeBase, log2) \<Rightarrow>
                 let base = (if trim (git_stdout mergeBase) \<noteq> [] then trim (git_stdout mergeBase)
                             else ''HEAD~1'')
                 in (case git g (range_diff_args base) cwd log2 of
                       (diff, log3) \<Rightarrow>
                         if git_code diff \<noteq> 0 then ([], log3)
                         else (output_lines (git_stdout diff), log3))))"

section \<open>Data model of the pipeline\<close>

datatype scope = Staged | Changed | Full
datatype e2e_mode = Auto | Always | Off
datatype status = Pass | Fail | Warn | Skipped
datatype level = InfoL | WarnL | ErrorL
datatype reporter = Summary | Json | Junit

text \<open>An optional field of a TypeScript type is an \<^typ>\<open>'a option\<close>; \<open>None\<close> is the
  absent field (\<open>undefined\<close>).\<close>

record message =
  level :: level
  "file" :: "string option"
  line :: "nat option"
  col :: "nat option"
  code :: "string option"
  message :: string
  suggestion :: "string option"
  fixable :: "bool option"

record plugin_result =
  name :: string
  status :: status
  messages :: "message list option"
  stdout :: "string option"
  stderr :: "string option"
  durationMs :: "nat option"
  artifacts :: "(string \<times> string) list option"
  stage :: "string option"

text \<open>
  The context handed to every check. In the source its \<open>config\<close> field is the whole
  configuration, which holds the checks themselves; checks read its \<open>e2e\<close> flag only, and
  that is the part the model keeps.
\<close>

record plugin_context =
  cwd :: string
  ci :: bool
  scope :: scope
  changedFiles :: "string list"
  stagedFiles :: "string list"
  targetFiles :: "string list option"
  env :: "(string \<times> string) list"
  config :: "e2e_mode option"

text \<open>
  What a check's \<open>run\<close> can do: resolve with a result, or reject with a thrown value. A
  thrown value is an \<open>Error\<close> object (its message and, when present, its stack) or any other
  value, kept as the text \<open>String(err)\<close> gives for it. A promise is observed as how it
  settles and the milliseconds \<open>Date.now()\<close> advanced meanwhile.
\<close>

datatype thrown = ErrorObject string "string option" | NonError string

datatype 'a settled = Resolved 'a | Rejected thrown

type_synonym 'a promise = "'a settled \<times> nat"

record plugin =
  plugin_name :: string
  plugin_run :: "plugin_context \<Rightarrow> plugin_result promise"

text \<open>A task specification of the source is an object holding one plugin; the model uses
  the plugin itself.\<close>

record stage_spec =
  stage_name :: string
  parallel :: "bool option"
  tasks :: "plugin list"
  failOnWarn :: "bool option"

record validator_config =
  stages :: "stage_spec list"
  config_e2e :: "e2e_mode option"
  reporters :: "reporter list option"

text \<open>Run options. \<open>maxWorkers\<close> is a JavaScript number; only integers are modelled, and a
  \<open>NaN\<close> is represented by 0, which is falsy as well.\<close>

record run_options =
  opt_scope :: scope
  opt_ci :: bool
  maxWorkers :: int
  report :: reporter
  opt_e2e :: e2e_mode
  quiet :: "bool option"
  verbose :: "bool option"
  paths :: "string list option"
  opt_cwd :: "string option"

definition truthy :: "bool option \<Rightarrow> bool" where
  "truthy b = (case b of None \<Rightarrow> False | Some v \<Rightarrow> v)"

text \<open>A string is truthy when it is present and not empty.\<close>

definition truthy_string :: "string option \<Rightarrow> bool" where
  "truthy_string s = (case s of None \<Rightarrow> False | Some v \<Rightarrow> v \<noteq> [])"

section \<open>Running one check\<close>

definition error_message :: "string \<Rightarrow> message" where
  "error_message msg =
     \<lparr>level = ErrorL, file = None, line = None, col = None, code = None, message = msg,
      suggestion = None, fixable = None\<rparr>"

definition info_message :: "string \<Rightarrow> message" where
  "info_message msg =
     \<lparr>level = InfoL, file = None, line = None, col = None, code = None, message = msg,
      suggestion = None, fixable = None\<rparr>"

text \<open>\<open>err instanceof Error ? err.message : fallback\<close>\<close>

definition crash_text :: "string \<Rightarrow> thrown \<Rightarrow> string" where
  "crash_text fallback err = (case err of ErrorObject m st \<Rightarrow> m | NonError v \<Rightarrow> fallback)"

text \<open>\<open>err instanceof Error && err.stack ? err.stack : undefined\<close>\<close>

definition crash_stack :: "thrown \<Rightarrow> string option" where
  "crash_stack err =
     (case err of
        ErrorObject m st \<Rightarrow> (if truthy_string st then st else None)
      | NonError v \<Rightarrow> None)"

text \<open>The result both \<open>catch\<close> handlers build; \<open>dur\<close> is the duration field, which only the
  handler inside \<open>runTask\<close> sets.\<close>

definition crash_result :: "string \<Rightarrow> string \<Rightarrow> thrown \<Rightarrow> nat option \<Rightarrow> plugin_result" where
  "crash_result fallback pname err dur =
     \<lparr>name = pname, status = Fail,
      messages = Some (error_message (crash_text fallback err) #
                       (case crash_stack err of None \<Rightarrow> [] | Some st \<Rightarrow> [info_message st])),
      stdout = None, stderr = crash_stack err, durationMs = dur, artifacts = None,
      stage = None\<rparr>"

definition runTask :: "plugin \<Rightarrow> plugin_context \<Rightarrow> plugin_result settled" where
  "runTask p ctx =
     (case plugin_run p ctx of
        (Resolved res, dt) \<Rightarrow> Resolved (res\<lparr>durationMs := Some dt\<rparr>)
      | (Rejected err, dt) \<Rightarrow>
          Resolved (crash_result ''Plugin crashed'' (plugin_name p) err (Some dt)))"

text \<open>The task as \<open>runValidation\<close> wraps it: \<open>runTask(t.plugin, ctx).catch(...)\<close>.\<close>

definition wrappedTask :: "plugin_context \<Rightarrow> plugin \<Rightarrow> plugin_result" where
  "wrappedTask ctx t =
     (case runTask t ctx of
        Resolved r \<Rightarrow> r
      | Rejected err \<Rightarrow> crash_result ''Task crashed'' (plugin_name t) err None)"

section \<open>Running the checks of a stage\<close>

text \<open>
  A task is a thunk; the model runs a task \<open>t\<close> by \<open>exec t\<close> and records, beside the
  collected results, the tasks that were started, in the order they were started.
\<close>

fun seq_loop :: "('t \<Rightarrow> 'r) \<Rightarrow> 't list \<Rightarrow> 'r list \<Rightarrow> 't list \<Rightarrow> 'r list \<times> 't list" where
  "seq_loop exec [] out started = (out, started)"
| "seq_loop exec (t # ts) out started = seq_loop exec ts (out @ [exec t]) (started @ [t])"

definition runSequential :: "('t \<Rightarrow> 'r) \<Rightarrow> 't list \<Rightarrow> 'r list \<times> 't list" where
  "runSequential exec ts = seq_loop exec ts [] []"

text \<open>
  \<open>runParallel\<close>. The \<open>while\<close> loop of \<open>pump\<close> moves tasks from the queue to the set of
  tasks in flight (kept in starting order) while fewer than \<open>maxWorkers\<close> are in flight.
\<close>

fun start_tasks :: "int \<Rightarrow> 't list \<Rightarrow> 't list \<Rightarrow> 't list \<Rightarrow> 't list \<times> 't list \<times> 't list" where
  "start_tasks maxW [] running started = ([], running, started)"
| "start_tasks maxW (t # queue) running started =
     (if int (length running) < maxW
      then start_tasks maxW queue (running @ [t]) (started @ [t])
      else (t # queue, running, started))"

text \<open>
  Which task in flight settles next is not decided by the program. The schedule is a list of
  numbers: its head, taken modulo the number of tasks in flight, selects the task that
  settles next (the first one when the schedule is exhausted). Every completion order the
  worker pool allows is the outcome of some schedule.
\<close>

definition pick :: "nat list \<Rightarrow> nat \<Rightarrow> nat" where
  "pick sched n = (case sched of [] \<Rightarrow> 0 | c # cs \<Rightarrow> c mod n)"

definition remove_nth :: "nat \<Rightarrow> 'a list \<Rightarrow> 'a list" where
  "remove_nth i xs = take i xs @ drop (Suc i) xs"

lemma start_tasks_length:
  "start_tasks maxW queue running started = (q', r', s')
   \<Longrightarrow> length q' + length r' = length queue + length running"
  by (induction maxW queue running started rule: start_tasks.induct) (auto split: if_splits)

lemma pick_less: "xs \<noteq> [] \<Longrightarrow> pick sched (length xs) < length xs"
  by (simp add: pick_def split: list.splits)

lemma length_remove_nth: "i < length xs \<Longrightarrow> Suc (length (remove_nth i xs)) = length xs"
  by (auto simp: remove_nth_def)

text \<open>
  One call of \<open>pump\<close> followed by the next completion. With no task in flight and a queue
  that is not empty (possible only when \<open>maxWorkers\<close> is below 1) nothing ever calls \<open>pump\<close>
  again and the promise stays pending: the value \<open>None\<close>.
\<close>

function par_loop ::
  "('t \<Rightarrow> 'r) \<Rightarrow> int \<Rightarrow> nat list \<Rightarrow> 't list \<Rightarrow> 't list \<Rightarrow> 'r list \<Rightarrow> 't list
   \<Rightarrow> ('r list \<times> 't list) option" where
  "par_loop exec maxW sched queue running out started =
     (if queue = [] \<and> running = [] then Some (out, started)
      else (case start_tasks maxW queue running started of
              (q', r', s') \<Rightarrow>
                if r' = [] then None
                else par_loop exec maxW (drop 1 sched) q'
                       (remove_nth (pick sched (length r')) r')
                       (out @ [exec (r' ! pick sched (length r'))]) s'))"
  by pat_completeness auto
termination par_loop
  apply (relation "measure (\<lambda>(exec, maxW, sched, queue, running, out, started).
                    length queue + length running)")
   apply simp
  subgoal for exec maxW sched queue running out started q' y r' s'
    using start_tasks_length [of maxW queue running started q' r' s']
      length_remove_nth [OF pick_less, of r' sched]
    by simp
  done

declare par_loop.simps [simp del]

definition runParallel ::
  "('t \<Rightarrow> 'r) \<Rightarrow> 't list \<Rightarrow> int \<Rightarrow> nat list \<Rightarrow> ('r list \<times> 't list) option" where
  "runParallel exec ts maxW sched = par_loop exec maxW sched ts [] [] []"

section \<open>Re-sorting the results of a parallel stage\<close>

text \<open>The \<open>forEach\<close> that fills the map \<open>order\<close>: a name keeps the index of its first
  occurrence.\<close>

fun build_order :: "plugin list \<Rightarrow> nat \<Rightarrow> (string \<rightharpoonup> nat) \<Rightarrow> (string \<rightharpoonup> nat)" where
  "build_order [] idx order = order"
| "build_order (t # ts) idx order =
     build_order ts (Suc idx)
       (if order (plugin_name t) = None then order(plugin_name t \<mapsto> idx) else order)"

definition compare_results :: "(string \<rightharpoonup> nat) \<Rightarrow> plugin_result \<Rightarrow> plugin_result \<Rightarrow> int" where
  "compare_results order a b =
     (case (order (name a), order (name b)) of
        (Some aIdx, Some bIdx) \<Rightarrow> int aIdx - int bIdx
      | (Some aIdx, None) \<Rightarrow> - 1
      | (None, Some bIdx) \<Rightarrow> 1
      | (None, None) \<Rightarrow> 0)"

text \<open>
  \<open>Array.prototype.sort\<close> with a comparator is a stable sort: elements that compare equal
  keep their order. For a comparator that is a consistent ordering its result is the one
  stable sorted arrangement, which insertion from the right computes.
\<close>

fun insert_by :: "('a \<Rightarrow> 'a \<Rightarrow> int) \<Rightarrow> 'a \<Rightarrow> 'a list \<Rightarrow> 'a list" where
  "insert_by cmp x [] = [x]"
| "insert_by cmp x (y # ys) = (if cmp x y \<le> 0 then x # y # ys else y # insert_by cmp x ys)"

definition js_sort :: "('a \<Rightarrow> 'a \<Rightarrow> int) \<Rightarrow> 'a list \<Rightarrow> 'a list" where
  "js_sort cmp xs = foldr (insert_by cmp) xs []"

definition sortResultsByTaskOrder :: "plugin_result list \<Rightarrow> plugin list \<Rightarrow> plugin_result list" where
  "sortResultsByTaskOrder rs ts = js_sort (compare_results (build_order ts 0 Map.empty)) rs"

section \<open>The scheduler\<close>

text \<open>
  What the run reads from outside the program: the git driver, \<open>process.cwd()\<close>,
  \<open>process.env\<close>, \<open>os.cpus().length\<close>, the path resolver of the file-system utilities, and,
  for each stage in turn, the schedule in which its checks settle.
\<close>

record world =
  git_spawn :: git_driver
  process_cwd :: string
  process_env :: "(string \<times> string) list"
  cpus :: nat
  resolvePathsToFiles :: "string list \<Rightarrow> string \<Rightarrow> string list"
  completion :: "nat list list"

text \<open>The part of \<open>runValidation\<close> before the loop over the stages: the working directory,
  the file lists and the context.\<close>

definition run_cwd :: "world \<Rightarrow> run_options \<Rightarrow> string" where
  "run_cwd w options = (case opt_cwd options of None \<Rightarrow> process_cwd w | Some d \<Rightarrow> d)"

definition build_context ::
  "world \<Rightarrow> validator_config \<Rightarrow> run_options \<Rightarrow> plugin_context \<times> git_log" where
  "build_context w cfg options =
     (let cwd0 = run_cwd w options;
          targetFiles0 = (case paths options of
                            None \<Rightarrow> None
                          | Some ps \<Rightarrow> Some (resolvePathsToFiles w ps cwd0))
      in (case getStagedFiles (git_spawn w) cwd0 [] of
            (stagedFiles0, log1) \<Rightarrow>
              (case (if opt_scope options = Staged then (stagedFiles0, log1)
                     else getChangedFilesAgainstUpstream (git_spawn w) cwd0 log1) of
                 (changedFiles0, log2) \<Rightarrow>
                   (\<lparr>cwd = cwd0, ci = opt_ci options, scope = opt_scope options,
                     changedFiles = changedFiles0, stagedFiles = stagedFiles0,
                     targetFiles = targetFiles0, env = process_env w,
                     config = config_e2e cfg\<rparr>, log2))))"

text \<open>\<open>Math.max(1, Math.min(options.maxWorkers || Math.min(4, Math.max(2, cpus - 1)), 8))\<close>\<close>

definition worker_count :: "world \<Rightarrow> run_options \<Rightarrow> int" where
  "worker_count w options =
     max 1 (min (if maxWorkers options \<noteq> 0 then maxWorkers options
                 else min 4 (max 2 (int (cpus w) - 1))) 8)"

text \<open>One stage: run its tasks, re-sort when it is parallel, stamp the stage name. The
  second component lists the checks whose \<open>run\<close> was called.\<close>

definition run_stage ::
  "plugin_context \<Rightarrow> int \<Rightarrow> nat list \<Rightarrow> stage_spec
   \<Rightarrow> (plugin_result list \<times> plugin list) option" where
  "run_stage ctx maxW sched st =
     (case (if truthy (parallel st) then runParallel (wrappedTask ctx) (tasks st) maxW sched
            else Some (runSequential (wrappedTask ctx) (tasks st))) of
        None \<Rightarrow> None
      | Some (stageResults, started) \<Rightarrow>
          Some (map (\<lambda>r. r\<lparr>stage := Some (stage_name st)\<rparr>)
                  (if truthy (parallel st) then sortResultsByTaskOrder stageResults (tasks st)
                   else stageResults),
                started))"

definition stage_aborts :: "stage_spec \<Rightarrow> plugin_result list \<Rightarrow> bool" where
  "stage_aborts st rs =
     (list_ex (\<lambda>r. status r = Fail) rs
      \<or> (truthy (failOnWarn st) \<and> list_ex (\<lambda>r. status r = Warn) rs))"

record run_outcome =
  ok :: bool
  results :: "plugin_result list"
  started_checks :: "string list"

text \<open>The loop over the stages. \<open>None\<close>: the run never returns.\<close>

fun stage_loop ::
  "plugin_context \<Rightarrow> int \<Rightarrow> nat list list \<Rightarrow> stage_spec list \<Rightarrow> plugin_result list
   \<Rightarrow> string list \<Rightarrow> run_outcome option" where
  "stage_loop ctx maxW scheds [] rs started =
     Some \<lparr>ok = True, results = rs, started_checks = started\<rparr>"
| "stage_loop ctx maxW scheds (st # rest) rs started =
     (case run_stage ctx maxW (case scheds of [] \<Rightarrow> [] | s # ss \<Rightarrow> s) st of
        None \<Rightarrow> None
      | Some (stageResultsWithMeta, begun) \<Rightarrow>
          if stage_aborts st stageResultsWithMeta
          then Some \<lparr>ok = False, results = rs @ stageResultsWithMeta,
                      started_checks = started @ map plugin_name begun\<rparr>
          else stage_loop ctx maxW (drop 1 scheds) rest (rs @ stageResultsWithMeta)
                 (started @ map plugin_name begun))"

definition runValidation :: "world \<Rightarrow> validator_config \<Rightarrow> run_options \<Rightarrow> run_outcome option" where
  "runValidation w cfg options =
     stage_loop (fst (build_context w cfg options)) (worker_count w options) (completion w)
       (stages cfg) [] []"

text \<open>The declaration index of the first check of a stage that has a given display name,
  and the key a result is sorted by: that index for the name the result carries, and the
  number of checks when no check has that name.\<close>

fun first_index :: "string \<Rightarrow> plugin list \<Rightarrow> nat option" where
  "first_index x [] = None"
| "first_index x (t # ts) =
     (if plugin_name t = x then Some 0 else map_option Suc (first_index x ts))"

definition order_key :: "plugin list \<Rightarrow> plugin_result \<Rightarrow> nat" where
  "order_key ts r = (case first_index (name r) ts of Some i \<Rightarrow> i | None \<Rightarrow> length ts)"

section \<open>Reading the git driver\<close>

text \<open>The exit code \<open>git\<close> reports for an invocation (\<open>code ?? 1\<close>), and the diff command
  that \<open>getChangedFilesAgainstUpstream\<close> runs last: against \<open>HEAD~1\<close> when the upstream
  lookup exits non-zero or prints nothing, against the merge base otherwise.\<close>

definition exit_code :: "git_driver \<Rightarrow> string list \<Rightarrow> string \<Rightarrow> int" where
  "exit_code g args dir = (case fst (g args dir) of None \<Rightarrow> 1 | Some c \<Rightarrow> c)"

definition changed_diff_args :: "git_driver \<Rightarrow> string \<Rightarrow> string list" where
  "changed_diff_args g dir =
     (if exit_code g upstream_args dir \<noteq> 0 \<or> trim (snd (g upstream_args dir)) = []
      then fallback_diff_args
      else range_diff_args
             (if trim (snd (g merge_base_args dir)) \<noteq> [] then trim (snd (g merge_base_args dir))
              else ''HEAD~1''))"

section \<open>Reading results\<close>

text \<open>The findings of a result, as the reporters read them (\<open>r.messages ?? []\<close>); the stage
  stamp the scheduler puts on a result; and the schedule handed to the stage at a given
  position of the configuration.\<close>

definition findings :: "plugin_result \<Rightarrow> message list" where
  "findings r = (case messages r of None \<Rightarrow> [] | Some ms \<Rightarrow> ms)"

definition stamp :: "stage_spec \<Rightarrow> plugin_result \<Rightarrow> plugin_result" where
  "stamp st r = r\<lparr>stage := Some (stage_name st)\<rparr>"

definition sched_of :: "nat list list \<Rightarrow> nat \<Rightarrow> nat list" where
  "sched_of scheds k = (case drop k scheds of [] \<Rightarrow> [] | s # ss \<Rightarrow> s)"

text \<open>The text of a thrown value: the message of an \<open>Error\<close> object, and for any other
  value the text it converts to.\<close>

definition error_text :: "thrown \<Rightarrow> string" where
  "error_text err = (case err of ErrorObject m st \<Rightarrow> m | NonError v \<Rightarrow> v)"

text \<open>A check reports under its own name when the result it resolves with carries the
  display name of the check (a result built for a crashed check always does).\<close>

definition reports_own_name :: "plugin_context \<Rightarrow> plugin \<Rightarrow> bool" where
  "reports_own_name ctx t =
     (case fst (plugin_run t ctx) of
        Resolved r \<Rightarrow> name r = plugin_name t
      | Rejected err \<Rightarrow> True)"

section \<open>Two checks of the repository\<close>

text \<open>
  The gitleaks check and the tsc check read the tool prober (through its cache) and spawn
  a process. Both are the environment here: \<open>getCachedToolInfo command cwd\<close> is the tool
  information the cache returns, \<open>spawn_process cmd args cwd\<close> is what the \<open>close\<close> event
  of the spawned process reports with the two captured streams, and \<open>clock_ms\<close> is the time
  a run takes.
\<close>

record tool_info =
  available :: bool
  version :: "string option"
  path :: "string option"

record proc_result =
  proc_code :: int
  proc_stdout :: string
  proc_stderr :: string

record toolbox =
  getCachedToolInfo :: "string \<Rightarrow> string \<Rightarrow> tool_info"
  spawn_process :: "string \<Rightarrow> string list \<Rightarrow> string \<Rightarrow> int option \<times> string \<times> string"
  clock_ms :: nat

text \<open>The helper \<open>run\<close> of the plugin modules: \<open>code ?? 1\<close>.\<close>

definition run :: "toolbox \<Rightarrow> string \<Rightarrow> string list \<Rightarrow> string \<Rightarrow> proc_result" where
  "run tb cmd args dir =
     (case spawn_process tb cmd args dir of
        (c, out, err) \<Rightarrow>
          \<lparr>proc_code = (case c of None \<Rightarrow> 1 | Some v \<Rightarrow> v), proc_stdout = out,
           proc_stderr = err\<rparr>)"

text \<open>\<open>Array.prototype.join\<close>\<close>

fun join :: "string \<Rightarrow> string list \<Rightarrow> string" where
  "join sep [] = []"
| "join sep [x] = x"
| "join sep (x # y # zs) = x @ sep @ join sep (y # zs)"

definition gitleaksPlugin :: "toolbox \<Rightarrow> plugin" where
  "gitleaksPlugin tb =
     \<lparr>plugin_name = ''Security (gitleaks)'',
      plugin_run = (\<lambda>ctx.
        (Resolved
          (if \<not> available (getCachedToolInfo tb ''gitleaks'' (cwd ctx)) then
             \<lparr>name = ''Security (gitleaks)'', status = Skipped, messages = None,
              stdout = Some (join [CHR 0x0A]
                [''gitleaks not found.'', ''Install it with: pnpm add -D gitleaks'', [],
                 ''This check is skipped for now.'']),
              stderr = None, durationMs = Some (clock_ms tb), artifacts = None, stage = None\<rparr>
           else
             (let res = run tb ''pnpm''
                          (if ci ctx then [''run'', ''security:scan:ci'']
                           else [''run'', ''security:scan:local''])
                          (cwd ctx)
              in \<lparr>name = ''Security (gitleaks)'',
                  status = (if proc_code res = 0 then Pass else Fail), messages = None,
                  stdout = Some (proc_stdout res), stderr = Some (proc_stderr res),
                  durationMs = None, artifacts = None, stage = None\<rparr>)),
         clock_ms tb))\<rparr>"

text \<open>The two regular expression tests of the tsc check: \<open>/\.(ts|tsx)$/i\<close> (the file name
  ends with \<open>.ts\<close> or \<open>.tsx\<close>, in any letter case) and \<open>/templates\//\<close> (the text
  \<open>templates/\<close> occurs in the name).\<close>

definition is_ts_file :: "string \<Rightarrow> bool" where
  "is_ts_file f =
     (case rev f of
        c1 # c2 # c3 # front \<Rightarrow>
          ((c1 = CHR ''s'' \<or> c1 = CHR ''S'') \<and> (c2 = CHR ''t'' \<or> c2 = CHR ''T'')
             \<and> c3 = CHR ''.'')
          \<or> (case front of
                c4 # stem \<Rightarrow>
                  (c1 = CHR ''x'' \<or> c1 = CHR ''X'') \<and> (c2 = CHR ''s'' \<or> c2 = CHR ''S'')
                  \<and> (c3 = CHR ''t'' \<or> c3 = CHR ''T'') \<and> c4 = CHR ''.''
              | [] \<Rightarrow> False)
      | _ \<Rightarrow> False)"

fun occurs :: "string \<Rightarrow> string \<Rightarrow> bool" where
  "occurs p [] = (p = [])"
| "occurs p (c # cs) = (take (length p) (c # cs) = p \<or> occurs p cs)"

definition tsc_args :: "string list" where
  "tsc_args = [''exec'', ''tsc'', ''--noEmit'', ''--esModuleInterop'', ''--skipLibCheck'',
     ''--target'', ''ES2020'', ''--module'', ''ESNext'', ''--moduleResolution'', ''Bundler'']"

definition tsc_finish :: "toolbox \<Rightarrow> plugin_context \<Rightarrow> string list \<Rightarrow> plugin_result" where
  "tsc_finish tb ctx args =
     (let res = run tb ''pnpm'' args (cwd ctx)
      in \<lparr>name = ''Types (tsc)'', status = (if proc_code res = 0 then Pass else Fail),
          messages = None, stdout = Some (proc_stdout res), stderr = Some (proc_stderr res),
          durationMs = None, artifacts = None, stage = None\<rparr>)"

definition tscPlugin :: "toolbox \<Rightarrow> plugin" where
  "tscPlugin tb =
     \<lparr>plugin_name = ''Types (tsc)'',
      plugin_run = (\<lambda>ctx.
        (Resolved
          (if \<not> available (getCachedToolInfo tb ''tsc'' (cwd ctx)) then
             \<lparr>name = ''TypeScript'', status = Skipped, messages = None,
              stdout = Some (join [CHR 0x0A]
                [''TypeScript (tsc) not found.'', ''Install it with: pnpm add -D typescript'',
                 [], ''This check is skipped for now.'']),
              stderr = None, durationMs = Some (clock_ms tb), artifacts = None, stage = None\<rparr>
           else
             (case targetFiles ctx of
                Some fs \<Rightarrow>
                  (let tsFiles = filter (\<lambda>f. \<not> occurs ''templates/'' f) (filter is_ts_file fs)
                   in if tsFiles = [] then
                        \<lparr>name = ''Types (tsc)'', status = Skipped,
                         messages = Some [info_message ''No TypeScript files in target paths''],
                         stdout = None, stderr = None, durationMs = None, artifacts = None,
                         stage = None\<rparr>
                      else tsc_finish tb ctx (tsc_args @ tsFiles))
              | None \<Rightarrow>
                  tsc_finish tb ctx (if \<not> ci ctx then tsc_args @ [''--incremental'']
                                     else tsc_args))),
         clock_ms tb))\<rparr>"

section \<open>Finding aggregator\<close>

text \<open>
  The aggregator's own types. A finding has the fields \<open>file\<close>, \<open>line\<close>, \<open>level\<close>, \<open>code\<close>,
  \<open>message\<close> and \<open>suggestion\<close>; a group (a rule violation) has \<open>rule\<close>, \<open>severity\<close>, \<open>count\<close>,
  \<open>fileViolations\<close> and \<open>suggestion\<close>; an entry of \<open>fileViolations\<close> has \<open>count\<close> and
  \<open>lines\<close>. The field names carry a prefix here where the plain name is taken. A JavaScript
  \<open>Map\<close> is an association list in insertion order.
\<close>

record finding =
  ffile :: string
  fline :: "nat option"
  flevel :: level
  fcode :: string
  fmessage :: string
  fsuggestion :: "string option"

record file_violation =
  file_count :: nat
  file_lines :: "nat list"

record rule_violation =
  rule :: string
  severity :: level
  rcount :: nat
  fileViolations :: "(string \<times> file_violation) list"
  rsuggestion :: "string option"

definition SEVERITY_ORDER :: "level \<Rightarrow> int" where
  "SEVERITY_ORDER l = (case l of ErrorL \<Rightarrow> 0 | WarnL \<Rightarrow> 1 | InfoL \<Rightarrow> 2)"

text \<open>\<open>Map.prototype.set\<close>: a present key keeps its position, a new key goes last.\<close>

fun map_set :: "'k \<Rightarrow> 'v \<Rightarrow> ('k \<times> 'v) list \<Rightarrow> ('k \<times> 'v) list" where
  "map_set k v [] = [(k, v)]"
| "map_set k v (e # m) = (if fst e = k then (k, v) # m else e # map_set k v m)"

text \<open>The decimal text of a line number, for the template \<open>`${finding.file}:${finding.line}`\<close>.\<close>

definition digit_char :: "nat \<Rightarrow> char" where
  "digit_char d = ''0123456789'' ! (d mod 10)"

fun string_of_nat :: "nat \<Rightarrow> string" where
  "string_of_nat n =
     (if n < 10 then [digit_char n] else string_of_nat (n div 10) @ [digit_char (n mod 10)])"

declare string_of_nat.simps [simp del]

text \<open>A line number is truthy when it is present and not 0. The key of a finding in
  \<open>fileViolations\<close> is \<open>file:line\<close> when the line is truthy and \<open>file\<close> otherwise.\<close>

definition file_key :: "finding \<Rightarrow> string" where
  "file_key f =
     (case fline f of
        Some n \<Rightarrow> if n \<noteq> 0 then ffile f @ '':'' @ string_of_nat n else ffile f
      | None \<Rightarrow> ffile f)"

text \<open>The update of \<open>group.fileViolations\<close> for one finding (only when its file is not
  empty).\<close>

definition add_file :: "finding \<Rightarrow> (string \<times> file_violation) list \<Rightarrow> (string \<times> file_violation) list" where
  "add_file f fv =
     (if ffile f \<noteq> [] then
        (let currentFileData =
               (case map_of fv (file_key f) of
                  Some existingFileData \<Rightarrow> existingFileData
                | None \<Rightarrow> \<lparr>file_count = 0, file_lines = []\<rparr>)
         in map_set (file_key f)
              \<lparr>file_count = file_count currentFileData + 1,
               file_lines = (case fline f of
                               Some n \<Rightarrow> if n \<noteq> 0 then file_lines currentFileData @ [n]
                                         else file_lines currentFileData
                             | None \<Rightarrow> file_lines currentFileData)\<rparr>
              fv)
      else fv)"

text \<open>The body of the loop over the findings: create the group of a code at its first
  finding, then let the group absorb the finding.\<close>

definition new_group :: "finding \<Rightarrow> rule_violation" where
  "new_group f =
     \<lparr>rule = fcode f, severity = flevel f, rcount = 0, fileViolations = [],
      rsuggestion = (if truthy_string (fsuggestion f) then fsuggestion f else None)\<rparr>"

definition absorb :: "rule_violation \<Rightarrow> finding \<Rightarrow> rule_violation" where
  "absorb g f =
     \<lparr>rule = rule g,
      severity = (if SEVERITY_ORDER (flevel f) < SEVERITY_ORDER (severity g) then flevel f
                  else severity g),
      rcount = rcount g + 1,
      fileViolations = add_file f (fileViolations g),
      rsuggestion = (if \<not> truthy_string (rsuggestion g) \<and> truthy_string (fsuggestion f)
                     then fsuggestion f else rsuggestion g)\<rparr>"

definition group_step :: "(string \<times> rule_violation) list \<Rightarrow> finding \<Rightarrow> (string \<times> rule_violation) list" where
  "group_step groupsMap f =
     (let groupsMap1 = (if map_of groupsMap (fcode f) = None
                        then map_set (fcode f) (new_group f) groupsMap else groupsMap)
      in (case map_of groupsMap1 (fcode f) of
            None \<Rightarrow> groupsMap1
          | Some g \<Rightarrow> map_set (fcode f) (absorb g f) groupsMap1))"

text \<open>
  \<open>String.prototype.localeCompare\<close> depends on the locale of the process; it is a parameter
  of the model. The entries of a group are sorted by \<open>a[0].localeCompare(b[0])\<close>, the groups
  by the difference of their severity ranks and then by \<open>a.rule.localeCompare(b.rule)\<close>.
\<close>

definition compare_keys :: "(string \<Rightarrow> string \<Rightarrow> int) \<Rightarrow> string \<times> 'v \<Rightarrow> string \<times> 'v \<Rightarrow> int" where
  "compare_keys localeCompare a b = localeCompare (fst a) (fst b)"

definition finish_group :: "(string \<Rightarrow> string \<Rightarrow> int) \<Rightarrow> rule_violation \<Rightarrow> rule_violation" where
  "finish_group localeCompare g =
     \<lparr>rule = rule g, severity = severity g, rcount = rcount g,
      fileViolations = js_sort (compare_keys localeCompare) (fileViolations g),
      rsuggestion = (if truthy_string (rsuggestion g) then rsuggestion g else None)\<rparr>"

definition compare_violations ::
  "(string \<Rightarrow> string \<Rightarrow> int) \<Rightarrow> rule_violation \<Rightarrow> rule_violation \<Rightarrow> int" where
  "compare_violations localeCompare a b =
     (let severityDiff = SEVERITY_ORDER (severity a) - SEVERITY_ORDER (severity b)
      in if severityDiff \<noteq> 0 then severityDiff else localeCompare (rule a) (rule b))"

definition aggregateByRule :: "(string \<Rightarrow> string \<Rightarrow> int) \<Rightarrow> finding list \<Rightarrow> rule_violation list" where
  "aggregateByRule localeCompare fs =
     js_sort (compare_violations localeCompare)
       (map (\<lambda>e. finish_group localeCompare (snd e)) (foldl group_step [] fs))"

text \<open>A collation to run the aggregator with: comparison by character codes.\<close>

definition char_code :: "char \<Rightarrow> nat" where
  "char_code c = of_char c"

fun byte_compare :: "string \<Rightarrow> string \<Rightarrow> int" where
  "byte_compare [] [] = 0"
| "byte_compare [] (y # ys) = - 1"
| "byte_compare (x # xs) [] = 1"
| "byte_compare (x # xs) (y # ys) =
     (if char_code x < char_code y then - 1
      else if char_code y < char_code x then 1
      else byte_compare xs ys)"

text \<open>Findings to run the aggregator on.\<close>

definition mk_finding :: "string \<Rightarrow> nat option \<Rightarrow> level \<Rightarrow> string \<Rightarrow> finding" where
  "mk_finding fl ln lv cd =
     \<lparr>ffile = fl, fline = ln, flevel = lv, fcode = cd, fmessage = ''bad'', fsuggestion = None\<rparr>"

definition demo_findings :: "finding list" where
  "demo_findings =
     [mk_finding ''src/b.ts'' (Some 12) WarnL ''arch/x'',
      mk_finding ''src/a.ts'' (Some 5) WarnL ''arch/y'',
      mk_finding ''src/a.ts'' (Some 3) ErrorL ''arch/y'',
      mk_finding ''src/a.ts'' (Some 3) WarnL ''arch/y'']"

text \<open>A comparator is consistent when "not greater" is total and transitive; this is what
  \<open>Array.prototype.sort\<close> asks of its comparator.\<close>

definition consistent_comparator :: "('a \<Rightarrow> 'a \<Rightarrow> int) \<Rightarrow> bool" where
  "consistent_comparator cmp =
     ((\<forall>a b. cmp a b \<le> 0 \<or> cmp b a \<le> 0)
      \<and> (\<forall>a b c. cmp a b \<le> 0 \<and> cmp b c \<le> 0 \<longrightarrow> cmp a c \<le> 0))"

definition split_findings :: "finding list" where
  "split_findings =
     [mk_finding ''src/a.ts'' (Some 3) ErrorL ''arch/y'',
      mk_finding ''src/a.ts'' (Some 5) ErrorL ''arch/y'']"

section \<open>Driver\<close>

text \<open>The options record the argument parser fills; every field is optional.\<close>

datatype preset_name = Nextjs | Library | Monorepo

datatype mode = FastMode | FullMode | CiMode

record cli_options =
  cli_scope :: "scope option"
  cli_e2e :: "e2e_mode option"
  cli_report :: "reporter option"
  cli_maxWorkers :: "int option option"
  cli_quiet :: "bool option"
  cli_verbose :: "bool option"
  cli_help :: "bool option"
  cli_version :: "bool option"
  cli_force :: "bool option"
  cli_preset :: "preset_name option"
  cli_paths :: "string option"
  cli_cwd :: "string option"

definition no_options :: cli_options where
  "no_options =
     \<lparr>cli_scope = None, cli_e2e = None, cli_report = None, cli_maxWorkers = None,
      cli_quiet = None, cli_verbose = None, cli_help = None, cli_version = None,
      cli_force = None, cli_preset = None, cli_paths = None, cli_cwd = None\<rparr>"

text \<open>
  \<open>a.split('=')\<close>, and the pair \<open>[k, v]\<close> the parser takes from an argument: the first two
  pieces when the argument contains an equals sign (there are at least two then; the
  fallback of the \<open>case\<close> is never reached), the argument and \<open>true\<close> otherwise.
\<close>

fun split_on :: "char \<Rightarrow> string \<Rightarrow> string list" where
  "split_on c [] = [[]]"
| "split_on c (x # xs) =
     (if x = c then [] # split_on c xs
      else (case split_on c xs of
              l # ls \<Rightarrow> (x # l) # ls
            | [] \<Rightarrow> [[x]]))"

definition key_value :: "string \<Rightarrow> string \<times> string" where
  "key_value a =
     (if CHR ''='' \<in> set a
      then (case split_on CHR ''='' a of
              k # v # others \<Rightarrow> (k, v)
            | _ \<Rightarrow> (a, ''true''))
      else (a, ''true''))"

text \<open>The value tests of the parser, such as
  \<open>v === 'summary' || v === 'json' || v === 'junit'\<close>: a value outside the list leaves the
  option unset.\<close>

definition parse_scope :: "string \<Rightarrow> scope option" where
  "parse_scope v =
     (if v = ''staged'' then Some Staged else if v = ''changed'' then Some Changed
      else if v = ''full'' then Some Full else None)"

definition parse_e2e :: "string \<Rightarrow> e2e_mode option" where
  "parse_e2e v =
     (if v = ''auto'' then Some Auto else if v = ''always'' then Some Always
      else if v = ''off'' then Some Off else None)"

definition parse_report :: "string \<Rightarrow> reporter option" where
  "parse_report v =
     (if v = ''summary'' then Some Summary else if v = ''json'' then Some Json
      else if v = ''junit'' then Some Junit else None)"

definition parse_preset :: "string \<Rightarrow> preset_name option" where
  "parse_preset v =
     (if v = ''nextjs'' then Some Nextjs else if v = ''library'' then Some Library
      else if v = ''monorepo'' then Some Monorepo else None)"

text \<open>The body of the loop over the arguments. \<open>Number(v)\<close> is a parameter: \<open>None\<close> is
  \<open>NaN\<close>.\<close>

definition parse_arg :: "(string \<Rightarrow> int option) \<Rightarrow> cli_options \<Rightarrow> string \<Rightarrow> cli_options" where
  "parse_arg to_number opts a =
     (case key_value a of
        (k, v) \<Rightarrow>
          if k = ''--scope'' then
            (case parse_scope v of Some s \<Rightarrow> opts\<lparr>cli_scope := Some s\<rparr> | None \<Rightarrow> opts)
          else if k = ''--e2e'' then
            (case parse_e2e v of Some e \<Rightarrow> opts\<lparr>cli_e2e := Some e\<rparr> | None \<Rightarrow> opts)
          else if k = ''--report'' then
            (case parse_report v of Some r \<Rightarrow> opts\<lparr>cli_report := Some r\<rparr> | None \<Rightarrow> opts)
          else if k = ''--max-workers'' then opts\<lparr>cli_maxWorkers := Some (to_number v)\<rparr>
          else if k = ''--quiet'' then opts\<lparr>cli_quiet := Some (v \<noteq> ''false'')\<rparr>
          else if k = ''--force'' then opts\<lparr>cli_force := Some (v \<noteq> ''false'')\<rparr>
          else if k = ''--verbose'' then opts\<lparr>cli_verbose := Some (v \<noteq> ''false'')\<rparr>
          else if k = ''--preset'' then
            (case parse_preset v of Some p \<Rightarrow> opts\<lparr>cli_preset := Some p\<rparr> | None \<Rightarrow> opts)
          else if k = ''--paths'' then opts\<lparr>cli_paths := Some v\<rparr>
          else if k = ''--cwd'' then opts\<lparr>cli_cwd := Some v\<rparr>
          else if k = ''--help'' \<or> k = ''-h'' then opts\<lparr>cli_help := Some True\<rparr>
          else if k = ''--version'' \<or> k = ''-v'' then opts\<lparr>cli_version := Some True\<rparr>
          else opts)"

definition startsWithDash :: "string \<Rightarrow> bool" where
  "startsWithDash a = (take 1 a = ''-'')"

definition parseArgs :: "(string \<Rightarrow> int option) \<Rightarrow> string list \<Rightarrow> string \<times> cli_options" where
  "parseArgs to_number argv =
     (let args = drop 2 argv
      in (case find (\<lambda>a. \<not> startsWithDash a) args of None \<Rightarrow> ''full'' | Some first \<Rightarrow> first,
          foldl (parse_arg to_number) no_options args))"

text \<open>
  What \<open>main\<close> reads from outside: everything \<open>runValidation\<close> reads, \<open>Number\<close>, the
  environment variable \<open>CI\<close>, the package version, \<open>path.join\<close>, the configuration loader
  (which may throw), the built-in preset and the project scaffolding.
\<close>

record driver_world =
  world :: world
  to_number :: "string \<Rightarrow> int option"
  env_CI :: "string option"
  pkg_version :: string
  path_join :: "string \<Rightarrow> string \<Rightarrow> string"
  loadUserConfig :: "string \<Rightarrow> validator_config option settled"
  nextjsPreset :: validator_config
  initProject :: "string \<Rightarrow> bool \<Rightarrow> preset_name option \<Rightarrow> unit settled"

definition buildOptions :: "driver_world \<Rightarrow> mode \<Rightarrow> cli_options \<Rightarrow> run_options" where
  "buildOptions dw md opts =
     \<lparr>opt_scope = (case cli_scope opts of
                     Some s \<Rightarrow> s
                   | None \<Rightarrow> if md = FastMode then Staged else Full),
      opt_ci = (md = CiMode \<or> truthy_string (env_CI dw)),
      maxWorkers = (case cli_maxWorkers opts of
                      None \<Rightarrow> max 1 (min 4 (max 2 (int (cpus (world dw)) - 1)))
                    | Some None \<Rightarrow> 0
                    | Some (Some n) \<Rightarrow> max 1 n),
      report = (case cli_report opts of Some r \<Rightarrow> r | None \<Rightarrow> Summary),
      opt_e2e = (case cli_e2e opts of Some e \<Rightarrow> e | None \<Rightarrow> Off),
      quiet = Some (case cli_quiet opts of Some q \<Rightarrow> q | None \<Rightarrow> False),
      verbose = Some (case cli_verbose opts of Some q \<Rightarrow> q | None \<Rightarrow> False),
      paths = (if truthy_string (cli_paths opts)
               then Some (filter (\<lambda>p. p \<noteq> [])
                            (map trim (split_on CHR '','' (case cli_paths opts of
                                                            Some p \<Rightarrow> p | None \<Rightarrow> []))))
               else None),
      opt_cwd = None\<rparr>"

text \<open>
  What the driver itself does in a run of \<open>main\<close>: the exit code passed to \<open>process.exit\<close>
  (\<open>None\<close> when \<open>main\<close> just returns), the line its error handler writes to standard error
  (\<open>None\<close> when the handler is not reached), what was printed or reported, and the checks
  that were started. The handler is the \<open>catch\<close> at the end of the file, which prints
  \<open>String(err)\<close> and exits with 1; it is the only place where the driver writes to standard
  error. What a run writes there besides is not part of the record: the warning of the path
  resolver for a path that does not exist, what the git children write (they inherit
  standard error), and what a check writes.
\<close>

datatype action =
    PrintedHelp
  | PrintedVersion string
  | Initialised
  | JsonReport "plugin_result list"
  | JunitReport "plugin_result list"
  | TerminalReport "plugin_result list" bool "bool option" "bool option"
  | Fatal

record main_result =
  exit_status :: "int option"
  printed_error :: "string option"
  action :: action
  checks_started :: "string list"

text \<open>What the error handler does with a thrown value. \<open>String(err)\<close> of an \<open>Error\<close> object
  is its name, a colon and its message; the name is taken to be \<open>Error\<close>.\<close>

definition fatal :: "thrown \<Rightarrow> main_result" where
  "fatal err =
     \<lparr>exit_status = Some 1,
      printed_error = Some ((case err of ErrorObject m st \<Rightarrow> ''Error: '' @ m | NonError v \<Rightarrow> v)
                            @ [CHR 0x0A]),
      action = Fatal, checks_started = []\<rparr>"

text \<open>\<open>cmd === 'fast' ? 'fast' : cmd === 'ci' ? 'ci' : 'full'\<close>\<close>

definition run_mode :: "string \<Rightarrow> mode" where
  "run_mode cmd = (if cmd = ''fast'' then FastMode else if cmd = ''ci'' then CiMode else FullMode)"

text \<open>\<open>opts.cwd ? join(process.cwd(), opts.cwd) : process.cwd()\<close>\<close>

definition run_dir :: "driver_world \<Rightarrow> cli_options \<Rightarrow> string" where
  "run_dir dw opts =
     (if truthy_string (cli_cwd opts)
      then path_join dw (process_cwd (world dw)) (case cli_cwd opts of Some d \<Rightarrow> d | None \<Rightarrow> [])
      else process_cwd (world dw))"

text \<open>The options \<open>main\<close> passes to \<open>runValidation\<close>: those of \<open>buildOptions\<close>, with the
  working directory set.\<close>

definition run_options_of :: "driver_world \<Rightarrow> string \<Rightarrow> cli_options \<Rightarrow> run_options" where
  "run_options_of dw cmd opts =
     (buildOptions dw (run_mode cmd) opts)\<lparr>opt_cwd := Some (run_dir dw opts)\<rparr>"

text \<open>The configuration that is run: the loaded one, and the built-in preset when the
  loader found none.\<close>

definition config_to_run :: "driver_world \<Rightarrow> validator_config option \<Rightarrow> validator_config" where
  "config_to_run dw loaded = (case loaded of None \<Rightarrow> nextjsPreset dw | Some cfg \<Rightarrow> cfg)"

text \<open>The reporter \<open>main\<close> calls on the results.\<close>

definition call_reporter :: "run_options \<Rightarrow> plugin_result list \<Rightarrow> action" where
  "call_reporter options rs =
     (if report options = Json then JsonReport rs
      else if report options = Junit then JunitReport rs
      else TerminalReport rs (opt_ci options) (quiet options) (verbose options))"

text \<open>The part of \<open>main\<close> after the \<open>init\<close> command: load the configuration, run it, report,
  exit.\<close>

definition validate :: "driver_world \<Rightarrow> string \<Rightarrow> cli_options \<Rightarrow> main_result option" where
  "validate dw cmd opts =
     (case loadUserConfig dw (run_dir dw opts) of
        Rejected err \<Rightarrow> Some (fatal err)
      | Resolved loaded \<Rightarrow>
          (case runValidation (world dw) (config_to_run dw loaded) (run_options_of dw cmd opts) of
             None \<Rightarrow> None
           | Some out \<Rightarrow>
               Some \<lparr>exit_status = Some (if ok out then 0 else 1),
                     printed_error = None,
                     action = call_reporter (run_options_of dw cmd opts) (results out),
                     checks_started = started_checks out\<rparr>))"

definition main :: "driver_world \<Rightarrow> string list \<Rightarrow> main_result option" where
  "main dw argv =
     (case parseArgs (to_number dw) argv of
        (cmd, opts) \<Rightarrow>
          if truthy (cli_help opts) then
            Some \<lparr>exit_status = None, printed_error = None, action = PrintedHelp,
                  checks_started = []\<rparr>
          else if truthy (cli_version opts) then
            Some \<lparr>exit_status = None, printed_error = None,
                  action = PrintedVersion (pkg_version dw), checks_started = []\<rparr>
          else if cmd = ''init'' then
            (case initProject dw (process_cwd (world dw)) (truthy (cli_force opts))
                    (cli_preset opts) of
               Rejected err \<Rightarrow> Some (fatal err)
             | Resolved u \<Rightarrow>
                 Some \<lparr>exit_status = Some 0, printed_error = None, action = Initialised,
                       checks_started = []\<rparr>)
          else validate dw cmd opts)"

text \<open>The argument \<open>--report=v\<close>.\<close>

definition report_arg :: "string \<Rightarrow> string" where
  "report_arg v = ''--report='' @ v"

section \<open>Tool prober\<close>

text \<open>
  The regular expression \<open>/v?(\d+\.\d+\.\d+)/\<close>, as \<open>String.prototype.match\<close> runs it. \<open>\d\<close>
  is an ASCII digit. \<open>\d+\<close> is greedy, and in this expression what follows it is a literal
  dot or the end of the expression, so giving back a digit never helps: \<open>\d+\<close> takes the
  whole run of digits. \<open>v?\<close> is greedy as well: the engine first tries to consume a \<open>v\<close>.
  The scan tries the start positions from left to right. The result is the pair of the
  whole match and of capture group 1.
\<close>

definition isDigit :: "char \<Rightarrow> bool" where
  "isDigit c = (c \<in> set ''0123456789'')"

definition digits1 :: "string \<Rightarrow> (string \<times> string) option" where
  "digits1 s =
     (if takeWhile isDigit s = [] then None
      else Some (takeWhile isDigit s, dropWhile isDigit s))"

definition dot :: "string \<Rightarrow> string option" where
  "dot s = (case s of c # cs \<Rightarrow> if c = CHR ''.'' then Some cs else None | [] \<Rightarrow> None)"

definition match_core :: "string \<Rightarrow> string option" where
  "match_core s =
     (case digits1 s of
        None \<Rightarrow> None
      | Some (d1, r1) \<Rightarrow>
          (case dot r1 of
             None \<Rightarrow> None
           | Some r1' \<Rightarrow>
               (case digits1 r1' of
                  None \<Rightarrow> None
                | Some (d2, r2) \<Rightarrow>
                    (case dot r2 of
                       None \<Rightarrow> None
                     | Some r2' \<Rightarrow>
                         (case digits1 r2' of
                            None \<Rightarrow> None
                          | Some (d3, r3) \<Rightarrow> Some (d1 @ ''.'' @ d2 @ ''.'' @ d3))))))"

definition match_here :: "string \<Rightarrow> (string \<times> string) option" where
  "match_here s =
     (case (if take 1 s = ''v'' then match_core (drop 1 s) else None) of
        Some m \<Rightarrow> Some (CHR ''v'' # m, m)
      | None \<Rightarrow> map_option (\<lambda>m. (m, m)) (match_core s))"

fun version_match :: "string \<Rightarrow> (string \<times> string) option" where
  "version_match [] = match_here []"
| "version_match (c # cs) =
     (case match_here (c # cs) of
        Some m \<Rightarrow> Some m
      | None \<Rightarrow> version_match cs)"

text \<open>
  The probe process is the environment: how it ended (it exited with a code; it was killed
  by a signal, which is what the \<open>timeout\<close> option of \<open>spawn\<close> does after 5 seconds, so that
  the \<open>close\<close> event carries the code \<open>null\<close>; or it could not be spawned, the \<open>error\<close>
  event) and the text captured from its two streams.
\<close>

datatype probe_end = Exited int | Killed | SpawnError

type_synonym prober = "string \<Rightarrow> string \<Rightarrow> probe_end \<times> string \<times> string"

definition unavailable :: tool_info where
  "unavailable = \<lparr>available = False, version = None, path = None\<rparr>"

definition on_close :: "string \<Rightarrow> int option \<Rightarrow> string \<Rightarrow> string \<Rightarrow> tool_info" where
  "on_close command exitCode stdoutOutput stderrOutput =
     (if exitCode = Some 0 then
        (let stdoutTrimmed = trim stdoutOutput;
             stderrTrimmed = trim stderrOutput;
             versionMatch =
               (case version_match stdoutTrimmed of
                  Some m \<Rightarrow> Some m
                | None \<Rightarrow> if stderrTrimmed \<noteq> [] then version_match stderrTrimmed else None)
         in \<lparr>available = True,
             version = (case versionMatch of
                          Some (whole, group1) \<Rightarrow> if group1 \<noteq> [] then Some group1 else None
                        | None \<Rightarrow> None),
             path = Some command\<rparr>)
      else unavailable)"

definition detectTool :: "prober \<Rightarrow> string \<Rightarrow> string list \<Rightarrow> string \<Rightarrow> tool_info" where
  "detectTool probe command args dir =
     (case probe (command @ '' '' @ join '' '' args) dir of
        (Exited c, out, err) \<Rightarrow> on_close command (Some c) out err
      | (Killed, out, err) \<Rightarrow> on_close command None out err
      | (SpawnError, out, err) \<Rightarrow> unavailable)"

text \<open>
  The pattern \<open>v?\d+\.\d+\.\d+\<close> as a language, stated without the matcher: after an
  optional leading \<open>v\<close> the text splits at its dots into exactly three parts, each a
  non-empty run of digits.
\<close>

definition is_number :: "string \<Rightarrow> bool" where
  "is_number a = (a \<noteq> [] \<and> list_all isDigit a)"

definition strip_v :: "string \<Rightarrow> string" where
  "strip_v w = (if take 1 w = ''v'' then drop 1 w else w)"

definition matches_pattern :: "string \<Rightarrow> bool" where
  "matches_pattern w =
     (case split_on CHR ''.'' (strip_v w) of
        [a, b, c] \<Rightarrow> is_number a \<and> is_number b \<and> is_number c
      | _ \<Rightarrow> False)"

text \<open>A tool that prints its version to standard error, and one that prints it with a
  leading \<open>v\<close>.\<close>

definition stderr_prober :: prober where
  "stderr_prober command dir = (Exited 0, [], ''gitleaks version v8.18.0'' @ [CHR 0x0A])"

definition v_prober :: prober where
  "v_prober command dir = (Exited 0, ''v1.2.3'', [])"

section \<open>Concrete inputs\<close>

text \<open>A branch without upstream: the upstream lookup exits with 128, the other commands
  succeed. And a directory outside any repository: every command fails.\<close>

definition demo_git :: git_driver where
  "demo_git args dir =
     (if args = upstream_args then (Some 128, [])
      else if args = fallback_diff_args then (Some 0, ''src/a.ts'' @ [CHR 0x0A])
      else if args = staged_args
        then (Some 0, ''src/b.ts'' @ [CHR 0x0D, CHR 0x0A] @ '' src/c.ts '' @ [CHR 0x0A])
      else (Some 1, []))"

definition failing_git :: git_driver where
  "failing_git args dir = (if args = upstream_args then (None, []) else (Some 128, ''fatal''))"

definition blank_result :: "string \<Rightarrow> status \<Rightarrow> plugin_result" where
  "blank_result n s =
     \<lparr>name = n, status = s, messages = None, stdout = None, stderr = None, durationMs = None,
      artifacts = None, stage = None\<rparr>"

text \<open>A check that resolves with a given result, and one that rejects with a given value.\<close>

definition fixed_check :: "string \<Rightarrow> plugin_result \<Rightarrow> plugin" where
  "fixed_check n r = \<lparr>plugin_name = n, plugin_run = (\<lambda>ctx. (Resolved r, 1))\<rparr>"

definition crashing_check :: "string \<Rightarrow> thrown \<Rightarrow> plugin" where
  "crashing_check n err = \<lparr>plugin_name = n, plugin_run = (\<lambda>ctx. (Rejected err, 1))\<rparr>"

definition demo_world :: world where
  "demo_world =
     \<lparr>git_spawn = demo_git, process_cwd = ''/repo'', process_env = [], cpus = 4,
      resolvePathsToFiles = (\<lambda>ps dir. ps), completion = [[1, 0]]\<rparr>"

definition demo_options :: "scope \<Rightarrow> run_options" where
  "demo_options sc =
     \<lparr>opt_scope = sc, opt_ci = False, maxWorkers = 4, report = Summary, opt_e2e = Off,
      quiet = Some False, verbose = Some False, paths = None, opt_cwd = None\<rparr>"

text \<open>A sequential stage with a passing and a failing check, followed by a second stage.\<close>

definition abort_config :: validator_config where
  "abort_config =
     \<lparr>stages =
        [\<lparr>stage_name = ''A'', parallel = None,
          tasks = [fixed_check ''P'' (blank_result ''P'' Pass),
                   fixed_check ''F'' (blank_result ''F'' Fail)],
          failOnWarn = None\<rparr>,
         \<lparr>stage_name = ''B'', parallel = None,
          tasks = [fixed_check ''Q'' (blank_result ''Q'' Pass)], failOnWarn = None\<rparr>],
      config_e2e = None, reporters = None\<rparr>"

definition demo_context :: plugin_context where
  "demo_context = fst (build_context demo_world abort_config (demo_options Full))"

text \<open>A machine without the tools; a machine where gitleaks reports a leak; a parallel stage
  with the tsc check declared before another check; a parallel stage with two checks of the
  same display name; a configuration with the gitleaks check only; a parallel stage with a
  passing and a crashing check.\<close>

definition no_tools :: toolbox where
  "no_tools =
     \<lparr>getCachedToolInfo = (\<lambda>c d. \<lparr>available = False, version = None, path = None\<rparr>),
      spawn_process = (\<lambda>c a d. (Some 127, [], [])), clock_ms = 5\<rparr>"

definition leaking_tools :: toolbox where
  "leaking_tools =
     \<lparr>getCachedToolInfo = (\<lambda>c d. \<lparr>available = True, version = Some ''8.18.0'',
                                    path = Some (''pnpm exec '' @ c)\<rparr>),
      spawn_process = (\<lambda>c a d. (Some 1, ''leaks found: 1'', [])), clock_ms = 40\<rparr>"

definition tsc_stage :: stage_spec where
  "tsc_stage =
     \<lparr>stage_name = ''Code Quality'', parallel = Some True,
      tasks = [tscPlugin no_tools, fixed_check ''Biome'' (blank_result ''Biome'' Pass)],
      failOnWarn = Some False\<rparr>"

definition twin_stage :: stage_spec where
  "twin_stage =
     \<lparr>stage_name = ''Lint'', parallel = Some True,
      tasks = [fixed_check ''Lint'' (blank_result ''Lint'' Pass),
               fixed_check ''Lint'' (blank_result ''Lint'' Warn)],
      failOnWarn = None\<rparr>"

definition gitleaks_config :: validator_config where
  "gitleaks_config =
     \<lparr>stages = [\<lparr>stage_name = ''Security'', parallel = None,
                  tasks = [gitleaksPlugin leaking_tools], failOnWarn = None\<rparr>],
      config_e2e = None, reporters = None\<rparr>"

text \<open>What the run of the two-stage configuration returns.\<close>

definition abort_outcome :: run_outcome where
  "abort_outcome =
     \<lparr>ok = False,
      results = [(blank_result ''P'' Pass)\<lparr>durationMs := Some 1, stage := Some ''A''\<rparr>,
                 (blank_result ''F'' Fail)\<lparr>durationMs := Some 1, stage := Some ''A''\<rparr>],
      started_checks = [''P'', ''F'']\<rparr>"

definition pair_stage :: stage_spec where
  "pair_stage =
     \<lparr>stage_name = ''Checks'', parallel = Some True,
      tasks = [fixed_check ''A'' (blank_result ''A'' Pass),
               crashing_check ''B'' (ErrorObject ''boom'' None)],
      failOnWarn = None\<rparr>"

text \<open>A configuration with one passing check, and a driver environment that loads it.\<close>

definition passing_config :: validator_config where
  "passing_config =
     \<lparr>stages = [\<lparr>stage_name = ''A'', parallel = None,
                  tasks = [fixed_check ''P'' (blank_result ''P'' Pass)], failOnWarn = None\<rparr>],
      config_e2e = None, reporters = None\<rparr>"

definition demo_driver :: driver_world where
  "demo_driver =
     \<lparr>world = demo_world, to_number = (\<lambda>v. None), env_CI = None, pkg_version = ''0.1.0'',
      path_join = (\<lambda>a b. a @ ''/'' @ b),
      loadUserConfig = (\<lambda>dir. Resolved (Some passing_config)),
      nextjsPreset = abort_config,
      initProject = (\<lambda>dir force preset. Resolved ())\<rparr>"

section \<open>Facts about the runners\<close>


lemma seq_loop_eq: "seq_loop exec ts out started = (out @ map exec ts, started @ ts)"
  by (induction ts arbitrary: out started) auto

lemma runSequential_eq: "runSequential exec ts = (map exec ts, ts)"
  by (simp add: runSequential_def seq_loop_eq)

lemma start_tasks_append:
  "start_tasks maxW queue running started = (q', r', s')
   \<Longrightarrow> r' @ q' = running @ queue \<and> s' @ q' = started @ queue"
  by (induction maxW queue running started rule: start_tasks.induct) (auto split: if_splits)

lemma start_tasks_nonempty:
  "start_tasks maxW queue running started = (q', r', s') \<Longrightarrow> 1 \<le> maxW
   \<Longrightarrow> queue \<noteq> [] \<or> running \<noteq> [] \<Longrightarrow> r' \<noteq> []"
  by (induction maxW queue running started rule: start_tasks.induct) (auto split: if_splits)

lemma mset_remove_nth:
  "i < length xs \<Longrightarrow> add_mset (xs ! i) (mset (remove_nth i xs)) = mset xs"
  unfolding remove_nth_def
  by (metis add_mset_add_single append_take_drop_id id_take_nth_drop mset.simps(2) mset_append union_mset_add_mset_right add.commute)

lemma par_loop_spec:
  "1 \<le> maxW \<Longrightarrow>
   \<exists>ord. par_loop exec maxW sched queue running out started
           = Some (out @ map exec ord, started @ queue)
         \<and> mset ord = mset (running @ queue)"
proof (induction exec maxW sched queue running out started rule: par_loop.induct)
  case (1 exec maxW sched queue running out started)
  show ?case
  proof (cases "queue = [] \<and> running = []")
    case True
    then show ?thesis by (simp add: par_loop.simps)
  next
    case False
    obtain q' r' s' where st: "start_tasks maxW queue running started = (q', r', s')"
      by (cases "start_tasks maxW queue running started") auto
    from start_tasks_nonempty [OF st "1.prems"] False have ne: "r' \<noteq> []" by blast
    from start_tasks_append [OF st]
    have app: "r' @ q' = running @ queue" "s' @ q' = started @ queue" by simp_all
    let ?i = "pick sched (length r')"
    have i: "?i < length r'" using ne by (rule pick_less)
    from "1.IH" [OF False st [symmetric] refl ne "1.prems"]
    obtain ord where ih:
      "par_loop exec maxW (drop 1 sched) q' (remove_nth ?i r') (out @ [exec (r' ! ?i)]) s'
       = Some ((out @ [exec (r' ! ?i)]) @ map exec ord, s' @ q')"
      "mset ord = mset (remove_nth ?i r' @ q')"
      by blast
    have "par_loop exec maxW sched queue running out started
          = Some (out @ map exec ((r' ! ?i) # ord), started @ queue)"
      using False st ne ih(1) app(2) by (subst par_loop.simps) simp
    moreover have "mset ((r' ! ?i) # ord) = mset (running @ queue)"
      using ih(2) mset_remove_nth [OF i] app(1)
      by (metis mset.simps(2) mset_append union_mset_add_mset_left)
    ultimately show ?thesis by blast
  qed
qed


lemma build_order_eq:
  "build_order ts idx m x =
     (case m x of Some i \<Rightarrow> Some i | None \<Rightarrow> map_option (\<lambda>j. j + idx) (first_index x ts))"
proof (induction ts arbitrary: idx m)
  case Nil
  then show ?case by (simp split: option.splits)
next
  case (Cons t ts)
  show ?case
    by (cases "first_index x ts") (auto simp: Cons.IH split: option.splits)
qed

lemma build_order_first_index: "build_order ts 0 Map.empty x = first_index x ts"
  by (cases "first_index x ts") (simp_all add: build_order_eq)

lemma first_index_Some:
  "first_index x ts = Some i \<Longrightarrow> i < length ts \<and> plugin_name (ts ! i) = x"
  by (induction ts arbitrary: i) (auto split: if_splits)

lemma first_index_None: "first_index x ts = None \<Longrightarrow> x \<notin> plugin_name ` set ts"
  by (induction ts) (auto split: if_splits)

lemma compare_results_le:
  "(compare_results (build_order ts 0 Map.empty) a b \<le> 0) = (order_key ts a \<le> order_key ts b)"
  by (auto simp: compare_results_def order_key_def build_order_first_index
      dest: first_index_Some split: option.splits)

lemma insert_by_insort_key:
  "(\<And>a b. (cmp a b \<le> 0) = (f a \<le> f b)) \<Longrightarrow> insert_by cmp x ys = insort_key f x ys"
  by (induction ys) auto

lemma js_sort_sort_key:
  assumes "\<And>a b. (cmp a b \<le> 0) = (f a \<le> (f b :: nat))"
  shows "js_sort cmp xs = sort_key f xs"
proof -
  have "insert_by cmp = insort_key f"
    using insert_by_insort_key [of cmp f, OF assms] by (intro ext)
  then show ?thesis by (simp add: js_sort_def sort_key_def)
qed

lemma sortResults_sort_key: "sortResultsByTaskOrder rs ts = sort_key (order_key ts) rs"
  unfolding sortResultsByTaskOrder_def
  by (rule js_sort_sort_key) (rule compare_results_le)

lemma first_index_distinct:
  "distinct (map plugin_name ts) \<Longrightarrow> i < length ts \<Longrightarrow> first_index (plugin_name (ts ! i)) ts = Some i"
proof (induction ts arbitrary: i)
  case Nil
  then show ?case by simp
next
  case (Cons t ts)
  show ?case
  proof (cases i)
    case 0
    then show ?thesis by simp
  next
    case (Suc j)
    with Cons.prems have j: "j < length ts" by simp
    then have mem: "ts ! j \<in> set ts" by simp
    from Cons.prems(1) have "plugin_name t \<notin> plugin_name ` set ts" by simp
    with mem j have "plugin_name (ts ! j) \<noteq> plugin_name t" "j < length ts"
      by (metis imageI, simp)
    with Cons Suc show ?thesis by auto
  qed
qed

lemma order_key_expected:
  assumes "distinct (map plugin_name ts)" "map name expected = map plugin_name ts"
  shows "map (order_key ts) expected = [0..<length ts]"
proof (rule nth_equalityI)
  from assms(2) have len: "length expected = length ts" by (metis length_map)
  then show "length (map (order_key ts) expected) = length [0..<length ts]" by simp
  fix i assume "i < length (map (order_key ts) expected)"
  then have i: "i < length ts" using len by simp
  have "name (expected ! i) = plugin_name (ts ! i)"
    using assms(2) i len by (metis nth_map)
  then show "map (order_key ts) expected ! i = [0..<length ts] ! i"
    using i len first_index_distinct [OF assms(1) i] by (simp add: order_key_def)
qed

lemma filter_key_single:
  "distinct (map f xs) \<Longrightarrow> k \<in> set xs \<Longrightarrow> filter (\<lambda>x. f k = f x) xs = [k]"
  by (induction xs) (auto simp: filter_empty_conv image_iff)

lemma sort_restores_declaration_order:
  assumes d: "distinct (map plugin_name ts)"
    and n: "map name expected = map plugin_name ts"
    and m: "mset rs = mset expected"
  shows "sortResultsByTaskOrder rs ts = expected"
proof -
  have keys: "map (order_key ts) expected = [0..<length ts]"
    using d n by (rule order_key_expected)
  have dk: "distinct (map (order_key ts) expected)" by (simp add: keys)
  have "sort_key (order_key ts) rs = expected"
  proof (rule properties_for_sort_key)
    show "mset expected = mset rs" using m by simp
    show "sorted (map (order_key ts) expected)" by (simp add: keys)
    fix k assume k: "k \<in> set expected"
    have one: "filter (\<lambda>x. order_key ts k = order_key ts x) expected = [k]"
      using dk k by (rule filter_key_single)
    have "mset (filter (\<lambda>x. order_key ts k = order_key ts x) rs)
          = mset (filter (\<lambda>x. order_key ts k = order_key ts x) expected)"
      by (simp add: m)
    then have "mset (filter (\<lambda>x. order_key ts k = order_key ts x) rs) = mset [k]"
      by (simp only: one)
    then have "filter (\<lambda>x. order_key ts k = order_key ts x) rs = [k]"
      by (simp only: mset.simps mset_single_iff)
    then show "filter (\<lambda>x. order_key ts k = order_key ts x) expected
               = filter (\<lambda>x. order_key ts k = order_key ts x) rs"
      by (simp only: one)
  qed
  then show ?thesis by (simp add: sortResults_sort_key)
qed

section \<open>The git scope resolver and the check context\<close>

lemma git_simps:
  "git_code (fst (git g args dir log)) = exit_code g args dir"
  "git_stdout (fst (git g args dir log)) = snd (g args dir)"
  "snd (git g args dir log) = log @ [args]"
  by (simp_all add: git_def exit_code_def split_beta)

lemma getStagedFiles_log: "snd (getStagedFiles g dir log) = log @ [staged_args]"
  by (simp add: getStagedFiles_def split_beta git_simps)

lemma getStagedFiles_eq:
  "fst (getStagedFiles g dir log) =
     (if exit_code g staged_args dir \<noteq> 0 then [] else output_lines (snd (g staged_args dir)))"
  by (simp add: getStagedFiles_def split_beta git_simps)

lemma getChanged_eq:
  "getChangedFilesAgainstUpstream g dir log =
     (if exit_code g (changed_diff_args g dir) dir \<noteq> 0 then []
      else output_lines (snd (g (changed_diff_args g dir) dir)),
      log @ (if exit_code g upstream_args dir \<noteq> 0 \<or> trim (snd (g upstream_args dir)) = []
             then [upstream_args, fallback_diff_args]
             else [upstream_args, merge_base_args, changed_diff_args g dir]))"
  by (simp add: getChangedFilesAgainstUpstream_def split_beta git_simps changed_diff_args_def
      Let_def)

lemma staged_ne_upstream: "staged_args \<noteq> upstream_args"
  by (simp add: staged_args_def upstream_args_def)

lemma demo_staged_files:
  "fst (getStagedFiles demo_git ''/repo'' []) = [''src/b.ts'', ''src/c.ts'']"
  by (simp add: getStagedFiles_def git_def demo_git_def output_lines_def trim_def isSpace_def
      staged_args_def upstream_args_def fallback_diff_args_def upstream_ref_def)

text \<open>
  Claim C5, as amended. The staged-files operation returns the empty list whenever its
  \<open>git diff --cached\<close> exits non-zero, and the changed-files operation returns the empty list
  whenever the \<open>git diff\<close> it runs last exits non-zero (the diff against \<open>HEAD~1\<close> when the
  upstream lookup exits non-zero or prints nothing, the diff against the merge base
  otherwise). Both operations are total functions of what git reports: no exit code makes
  them raise.
\<close>

theorem diff_failure_gives_empty_list:
  "(exit_code g staged_args dir \<noteq> 0 \<longrightarrow> fst (getStagedFiles g dir log) = [])
   \<and> (exit_code g (changed_diff_args g dir) dir \<noteq> 0
        \<longrightarrow> fst (getChangedFilesAgainstUpstream g dir log) = [])
   \<and> last (snd (getStagedFiles g dir log)) = staged_args
   \<and> last (snd (getChangedFilesAgainstUpstream g dir log)) = changed_diff_args g dir"
  by (simp add: getStagedFiles_eq getStagedFiles_log getChanged_eq changed_diff_args_def)

text \<open>Outside a repository both operations return the empty list.\<close>

theorem diff_failure_gives_empty_list_witness:
  "exit_code failing_git staged_args ''/tmp'' \<noteq> 0
   \<and> fst (getStagedFiles failing_git ''/tmp'' []) = []
   \<and> exit_code failing_git (changed_diff_args failing_git ''/tmp'') ''/tmp'' \<noteq> 0
   \<and> fst (getChangedFilesAgainstUpstream failing_git ''/tmp'' []) = []"
proof -
  have a: "exit_code failing_git staged_args ''/tmp'' \<noteq> 0"
    by (simp add: exit_code_def failing_git_def)
  have b: "exit_code failing_git (changed_diff_args failing_git ''/tmp'') ''/tmp'' \<noteq> 0"
    by (simp add: exit_code_def failing_git_def)
  from a b diff_failure_gives_empty_list [of failing_git "''/tmp''" "[]"]
  show ?thesis by blast
qed

text \<open>
  Claim C5 as stated fails: on a branch without upstream the upstream lookup exits with
  128, a non-zero exit code of an underlying git command, and the changed-files operation
  returns the files of the fallback diff, not the empty list.
\<close>

theorem upstream_lookup_failure_counterexample:
  "exit_code demo_git upstream_args ''/repo'' \<noteq> 0
   \<and> fst (getChangedFilesAgainstUpstream demo_git ''/repo'' []) = [''src/a.ts'']"
  by (simp add: getChanged_eq changed_diff_args_def exit_code_def demo_git_def output_lines_def
      trim_def isSpace_def staged_args_def upstream_args_def fallback_diff_args_def
      upstream_ref_def)

text \<open>
  Claim C10. With scope \<open>staged\<close> the context's changed-files list is its staged-files
  list and the only git command run is the staged diff; with any other scope the
  changed-files list is the result of the changed-vs-upstream operation. The upstream
  lookup is among the git commands run exactly when the scope is not \<open>staged\<close>.
\<close>

theorem staged_scope_skips_upstream_query:
  "changedFiles (fst (build_context w cfg options)) =
     (if opt_scope options = Staged then stagedFiles (fst (build_context w cfg options))
      else fst (getChangedFilesAgainstUpstream (git_spawn w) (run_cwd w options) [staged_args]))
   \<and> stagedFiles (fst (build_context w cfg options))
       = fst (getStagedFiles (git_spawn w) (run_cwd w options) [])
   \<and> snd (build_context w cfg options) =
     (if opt_scope options = Staged then [staged_args]
      else snd (getChangedFilesAgainstUpstream (git_spawn w) (run_cwd w options) [staged_args]))
   \<and> (upstream_args \<in> set (snd (build_context w cfg options))) = (opt_scope options \<noteq> Staged)"
proof -
  obtain sf l1 where s: "getStagedFiles (git_spawn w) (run_cwd w options) [] = (sf, l1)"
    by (cases "getStagedFiles (git_spawn w) (run_cwd w options) []") auto
  have l1: "l1 = [staged_args]"
    using getStagedFiles_log [of "git_spawn w" "run_cwd w options" "[]"] s by simp
  obtain cf l2 where c:
    "getChangedFilesAgainstUpstream (git_spawn w) (run_cwd w options) [staged_args] = (cf, l2)"
    by (cases "getChangedFilesAgainstUpstream (git_spawn w) (run_cwd w options) [staged_args]") auto
  have up: "upstream_args \<in> set l2"
    using c by (auto simp: getChanged_eq split: if_splits)
  show ?thesis
    using s l1 c up staged_ne_upstream
    by (simp add: build_context_def Let_def)
qed

theorem staged_scope_skips_upstream_query_witness:
  "changedFiles (fst (build_context demo_world abort_config (demo_options Staged)))
     = [''src/b.ts'', ''src/c.ts'']
   \<and> snd (build_context demo_world abort_config (demo_options Staged)) = [staged_args]"
  using staged_scope_skips_upstream_query [of demo_world abort_config "demo_options Staged"]
  by (simp add: demo_options_def demo_world_def run_cwd_def demo_staged_files)

section \<open>The stage loop\<close>

lemma worker_count_ge: "1 \<le> worker_count w options"
  by (simp add: worker_count_def)

lemma mset_sortResults: "mset (sortResultsByTaskOrder rs ts) = mset rs"
  by (simp add: sortResults_sort_key)

lemma run_stage_spec:
  assumes "1 \<le> maxW"
  shows "\<exists>ord. mset ord = mset (tasks st)
     \<and> run_stage ctx maxW sched st
         = Some (map (stamp st)
                   (if truthy (parallel st)
                    then sortResultsByTaskOrder (map (wrappedTask ctx) ord) (tasks st)
                    else map (wrappedTask ctx) (tasks st)),
                 tasks st)"
proof (cases "truthy (parallel st)")
  case True
  from par_loop_spec [OF assms, of "wrappedTask ctx" sched "tasks st" "[]" "[]" "[]"]
  obtain ord where "runParallel (wrappedTask ctx) (tasks st) maxW sched
      = Some (map (wrappedTask ctx) ord, tasks st)" "mset ord = mset (tasks st)"
    by (auto simp: runParallel_def)
  with True show ?thesis
    by (auto simp: run_stage_def stamp_def)
next
  case False
  then show ?thesis
    by (auto simp: run_stage_def runSequential_eq stamp_def)
qed

lemma run_stage_mset:
  assumes "1 \<le> maxW"
  shows "\<exists>rs. run_stage ctx maxW sched st = Some (rs, tasks st)
     \<and> mset rs = mset (map (\<lambda>t. stamp st (wrappedTask ctx t)) (tasks st))
     \<and> (\<not> truthy (parallel st) \<longrightarrow> rs = map (\<lambda>t. stamp st (wrappedTask ctx t)) (tasks st))"
proof -
  from run_stage_spec [OF assms, of st ctx sched] obtain ord where
    o: "mset ord = mset (tasks st)" and
    r: "run_stage ctx maxW sched st
         = Some (map (stamp st)
                   (if truthy (parallel st)
                    then sortResultsByTaskOrder (map (wrappedTask ctx) ord) (tasks st)
                    else map (wrappedTask ctx) (tasks st)),
                 tasks st)"
    by blast
  have "mset (map (stamp st) (sortResultsByTaskOrder (map (wrappedTask ctx) ord) (tasks st)))
        = mset (map (\<lambda>t. stamp st (wrappedTask ctx t)) (tasks st))"
    using o by (simp add: mset_sortResults multiset.map_comp comp_def)
  with r show ?thesis by (auto simp: multiset.map_comp comp_def)
qed


lemma sched_of_0: "sched_of scheds 0 = (case scheds of [] \<Rightarrow> [] | s # ss \<Rightarrow> s)"
  by (simp add: sched_of_def)

lemma sched_of_Suc: "sched_of (drop (Suc 0) scheds) k = sched_of scheds (Suc k)"
  by (simp add: sched_of_def)

lemma stage_loop_spec:
  assumes "1 \<le> maxW"
  shows "\<exists>out n rss.
     stage_loop ctx maxW scheds sts rs0 st0 = Some out
     \<and> n \<le> length sts \<and> length rss = n
     \<and> results out = rs0 @ concat rss
     \<and> started_checks out = st0 @ concat (map (\<lambda>st. map plugin_name (tasks st)) (take n sts))
     \<and> (\<forall>k<n. run_stage ctx maxW (sched_of scheds k) (sts ! k) = Some (rss ! k, tasks (sts ! k)))
     \<and> (\<forall>k<n. stage_aborts (sts ! k) (rss ! k) = (Suc k = n \<and> \<not> ok out))
     \<and> (ok out \<longrightarrow> n = length sts) \<and> (\<not> ok out \<longrightarrow> 0 < n)"
proof (induction sts arbitrary: scheds rs0 st0)
  case Nil
  show ?case by simp
next
  case (Cons st rest)
  from run_stage_mset [OF assms, of ctx "sched_of scheds 0" st]
  obtain r where r: "run_stage ctx maxW (sched_of scheds 0) st = Some (r, tasks st)"
    by blast
  show ?case
  proof (cases "stage_aborts st r")
    case True
    let ?out = "\<lparr>ok = False, results = rs0 @ r,
                 started_checks = st0 @ map plugin_name (tasks st)\<rparr>"
    have "stage_loop ctx maxW scheds (st # rest) rs0 st0 = Some ?out"
      using r True by (simp add: sched_of_0)
    then show ?thesis
      using r True
      by (intro exI [of _ ?out] exI [of _ "Suc 0"] exI [of _ "[r]"]) simp
  next
    case False
    from Cons.IH [of "drop 1 scheds" "rs0 @ r" "st0 @ map plugin_name (tasks st)"]
    obtain out n rss where ih:
      "stage_loop ctx maxW (drop 1 scheds) rest (rs0 @ r) (st0 @ map plugin_name (tasks st))
       = Some out"
      "n \<le> length rest" "length rss = n"
      "results out = (rs0 @ r) @ concat rss"
      "started_checks out = (st0 @ map plugin_name (tasks st))
         @ concat (map (\<lambda>st. map plugin_name (tasks st)) (take n rest))"
      "\<forall>k<n. run_stage ctx maxW (sched_of (drop 1 scheds) k) (rest ! k)
              = Some (rss ! k, tasks (rest ! k))"
      "\<forall>k<n. stage_aborts (rest ! k) (rss ! k) = (Suc k = n \<and> \<not> ok out)"
      "ok out \<longrightarrow> n = length rest" "\<not> ok out \<longrightarrow> 0 < n"
      by blast
    have loop: "stage_loop ctx maxW scheds (st # rest) rs0 st0 = Some out"
      using r False ih(1) by (simp add: sched_of_0)
    have runs: "\<forall>k<Suc n. run_stage ctx maxW (sched_of scheds k) ((st # rest) ! k)
                  = Some ((r # rss) ! k, tasks ((st # rest) ! k))"
      using r ih(6) by (simp add: All_less_Suc2 sched_of_Suc)
    have aborts: "\<forall>k<Suc n. stage_aborts ((st # rest) ! k) ((r # rss) ! k)
                    = (Suc k = Suc n \<and> \<not> ok out)"
      using False ih(7) ih(9) by (auto simp: All_less_Suc2)
    show ?thesis
      using loop ih(2-5) ih(8) runs aborts
      by (intro exI [of _ out] exI [of _ "Suc n"] exI [of _ "r # rss"]) simp
  qed
qed


text \<open>
  Claim C1. \<open>runValidation\<close> always returns. The stages that ran are the first \<open>n\<close> stages
  of the configuration; the result list is the concatenation of their results and the
  checks started are exactly theirs, so no check of a later stage is run. A stage that ran
  fails its policy (a result with status \<open>fail\<close>, or \<open>failOnWarn\<close> and a result with status
  \<open>warn\<close>) exactly when it is the last stage that ran and \<open>ok\<close> is false; when \<open>ok\<close> is
  true every stage of the configuration ran, and none failed its policy.
\<close>

theorem runValidation_stage_policy:
  "\<exists>out n rss.
     runValidation w cfg options = Some out
     \<and> n \<le> length (stages cfg) \<and> length rss = n
     \<and> results out = concat rss
     \<and> started_checks out
         = concat (map (\<lambda>st. map plugin_name (tasks st)) (take n (stages cfg)))
     \<and> (\<forall>k<n. run_stage (fst (build_context w cfg options)) (worker_count w options)
                 (sched_of (completion w) k) (stages cfg ! k)
               = Some (rss ! k, tasks (stages cfg ! k)))
     \<and> (\<forall>k<n. stage_aborts (stages cfg ! k) (rss ! k) = (Suc k = n \<and> \<not> ok out))
     \<and> (ok out \<longrightarrow> n = length (stages cfg)) \<and> (\<not> ok out \<longrightarrow> 0 < n)"
  using stage_loop_spec [OF worker_count_ge, of "fst (build_context w cfg options)" w options
      "completion w" "stages cfg" "[]" "[]"]
  by (simp add: runValidation_def)

text \<open>A sequential stage with a passing and a failing check, then a second stage: the run
  stops after the first stage.\<close>

theorem runValidation_stage_policy_witness:
  "\<exists>out. runValidation demo_world abort_config (demo_options Full) = Some out
     \<and> \<not> ok out \<and> started_checks out = [''P'', ''F'']
     \<and> map name (results out) = [''P'', ''F'']
     \<and> map status (results out) = [Pass, Fail]"
proof -
  from runValidation_stage_policy [of demo_world abort_config "demo_options Full"]
  obtain out where "runValidation demo_world abort_config (demo_options Full) = Some out"
    by blast
  then show ?thesis
    by (auto simp: runValidation_def abort_config_def run_stage_def truthy_def runSequential_def
        wrappedTask_def runTask_def fixed_check_def blank_result_def stage_aborts_def)
qed

text \<open>
  Claim C2, as amended. \<open>runTask\<close> never rejects. When a check's \<open>run\<close> rejects, the result
  standing for it carries the check's name and status \<open>fail\<close>, and has exactly one
  error-level finding, whose message is the message of the thrown \<open>Error\<close> object and the
  fixed text \<open>Plugin crashed\<close> when the thrown value is not an \<open>Error\<close>; the only other
  finding is an info-level one with the stack, when the error has a stack. The stage goes
  on: every check of the stage is started, and the stage's results are the results of all
  its checks (in declaration order when the stage is sequential).
\<close>

theorem crashed_check_becomes_fail_result:
  "(\<exists>r. runTask p ctx = Resolved r)
   \<and> (fst (plugin_run p ctx) = Rejected err \<longrightarrow>
        name (wrappedTask ctx p) = plugin_name p
        \<and> status (wrappedTask ctx p) = Fail
        \<and> filter (\<lambda>m. level m = ErrorL) (findings (wrappedTask ctx p))
            = [error_message (case err of ErrorObject m st \<Rightarrow> m
                                        | NonError v \<Rightarrow> ''Plugin crashed'')]
        \<and> filter (\<lambda>m. level m \<noteq> ErrorL) (findings (wrappedTask ctx p))
            = (case err of
                 ErrorObject m (Some st) \<Rightarrow> if st \<noteq> [] then [info_message st] else []
               | _ \<Rightarrow> []))
   \<and> (\<exists>rs. run_stage ctx (worker_count w options) sched st = Some (rs, tasks st)
          \<and> mset rs = mset (map (\<lambda>t. stamp st (wrappedTask ctx t)) (tasks st))
          \<and> (\<not> truthy (parallel st)
               \<longrightarrow> rs = map (\<lambda>t. stamp st (wrappedTask ctx t)) (tasks st)))"
proof -
  have a: "\<exists>r. runTask p ctx = Resolved r"
    by (cases "plugin_run p ctx"; cases "fst (plugin_run p ctx)") (auto simp: runTask_def)
  have b: "fst (plugin_run p ctx) = Rejected err \<longrightarrow>
        name (wrappedTask ctx p) = plugin_name p
        \<and> status (wrappedTask ctx p) = Fail
        \<and> filter (\<lambda>m. level m = ErrorL) (findings (wrappedTask ctx p))
            = [error_message (case err of ErrorObject m st \<Rightarrow> m
                                        | NonError v \<Rightarrow> ''Plugin crashed'')]
        \<and> filter (\<lambda>m. level m \<noteq> ErrorL) (findings (wrappedTask ctx p))
            = (case err of
                 ErrorObject m (Some st) \<Rightarrow> if st \<noteq> [] then [info_message st] else []
               | _ \<Rightarrow> [])"
    by (cases "plugin_run p ctx")
       (auto simp: wrappedTask_def runTask_def crash_result_def crash_text_def crash_stack_def
          findings_def error_message_def info_message_def truthy_string_def
          split: thrown.splits option.splits)
  from a b run_stage_mset [OF worker_count_ge, of ctx w options sched st]
  show ?thesis by blast
qed

theorem crashed_check_becomes_fail_result_witness:
  "fst (plugin_run (crashing_check ''P'' (ErrorObject ''boom'' (Some ''at x''))) demo_context)
     = Rejected (ErrorObject ''boom'' (Some ''at x''))
   \<and> status (wrappedTask demo_context
                (crashing_check ''P'' (ErrorObject ''boom'' (Some ''at x'')))) = Fail
   \<and> map message (filter (\<lambda>m. level m = ErrorL)
        (findings (wrappedTask demo_context
                     (crashing_check ''P'' (ErrorObject ''boom'' (Some ''at x''))))))
       = [''boom'']"
proof -
  have r: "fst (plugin_run (crashing_check ''P'' (ErrorObject ''boom'' (Some ''at x'')))
             demo_context) = Rejected (ErrorObject ''boom'' (Some ''at x''))"
    by (simp add: crashing_check_def)
  from r crashed_check_becomes_fail_result
    [of "crashing_check ''P'' (ErrorObject ''boom'' (Some ''at x''))" demo_context
        "ErrorObject ''boom'' (Some ''at x'')" demo_world "demo_options Full" "[]"
        "hd (stages abort_config)"]
  show ?thesis by (simp add: error_message_def)
qed

text \<open>
  Claim C2 as stated fails for a check that rejects with a value that is not an \<open>Error\<close>:
  the finding's message is \<open>Plugin crashed\<close>, not the text of the thrown value.
\<close>

theorem non_error_throw_counterexample:
  "fst (plugin_run (crashing_check ''P'' (NonError ''boom'')) demo_context)
     = Rejected (NonError ''boom'')
   \<and> error_text (NonError ''boom'') = ''boom''
   \<and> map message (findings (wrappedTask demo_context (crashing_check ''P'' (NonError ''boom''))))
       = [''Plugin crashed'']"
  by (simp add: crashing_check_def error_text_def wrappedTask_def runTask_def crash_result_def
      crash_text_def crash_stack_def findings_def error_message_def)

section \<open>Order of the results of a parallel stage\<close>

lemma name_wrappedTask:
  "reports_own_name ctx t \<Longrightarrow> name (wrappedTask ctx t) = plugin_name t"
  by (cases "plugin_run t ctx"; cases "fst (plugin_run t ctx)")
     (auto simp: reports_own_name_def wrappedTask_def runTask_def crash_result_def)

lemma run_stage_parallel_ordered:
  assumes par: "truthy (parallel st)"
    and d: "distinct (map plugin_name (tasks st))"
    and own: "list_all (reports_own_name ctx) (tasks st)"
    and w: "1 \<le> maxW"
  shows "run_stage ctx maxW sched st
         = Some (map (\<lambda>t. stamp st (wrappedTask ctx t)) (tasks st), tasks st)"
proof -
  from run_stage_spec [OF w, of st ctx sched] par obtain ord where
    o: "mset ord = mset (tasks st)" and
    r: "run_stage ctx maxW sched st
         = Some (map (stamp st)
                   (sortResultsByTaskOrder (map (wrappedTask ctx) ord) (tasks st)), tasks st)"
    by auto
  have n: "map name (map (wrappedTask ctx) (tasks st)) = map plugin_name (tasks st)"
    using own by (simp add: list_all_iff name_wrappedTask)
  have m: "mset (map (wrappedTask ctx) ord) = mset (map (wrappedTask ctx) (tasks st))"
    using o by simp
  from sort_restores_declaration_order [OF d n m] r show ?thesis by simp
qed

text \<open>
  Claim C3, as amended. For every parallel stage whose checks have pairwise distinct display
  names and report under their own names, whatever the schedule in which the checks settle,
  the stage's results are the results of its checks in declaration order: the output does
  not depend on the schedule.
\<close>

theorem parallel_stage_keeps_declaration_order:
  assumes "truthy (parallel st)"
    and "distinct (map plugin_name (tasks st))"
    and "list_all (reports_own_name ctx) (tasks st)"
  shows "run_stage ctx (worker_count w options) sched st
         = Some (map (\<lambda>t. stamp st (wrappedTask ctx t)) (tasks st), tasks st)"
  using assms worker_count_ge by (rule run_stage_parallel_ordered)

text \<open>Two checks, the second settling first.\<close>

theorem parallel_stage_keeps_declaration_order_witness:
  "truthy (parallel pair_stage) \<and> distinct (map plugin_name (tasks pair_stage))
   \<and> list_all (reports_own_name demo_context) (tasks pair_stage)
   \<and> map_option (map name \<circ> fst)
        (run_stage demo_context (worker_count demo_world (demo_options Full)) [1, 0] pair_stage)
       = Some [''A'', ''B'']"
proof -
  have a: "truthy (parallel pair_stage)" by (simp add: pair_stage_def truthy_def)
  have b: "distinct (map plugin_name (tasks pair_stage))"
    by (simp add: pair_stage_def fixed_check_def crashing_check_def)
  have c: "list_all (reports_own_name demo_context) (tasks pair_stage)"
    by (simp add: pair_stage_def fixed_check_def crashing_check_def reports_own_name_def
        blank_result_def)
  from parallel_stage_keeps_declaration_order [OF a b c, of demo_world "demo_options Full" "[1, 0]"]
  have "map_option (map name \<circ> fst)
          (run_stage demo_context (worker_count demo_world (demo_options Full)) [1, 0] pair_stage)
        = Some (map (\<lambda>t. name (stamp pair_stage (wrappedTask demo_context t))) (tasks pair_stage))"
    by (simp add: comp_def)
  also have "\<dots> = Some [''A'', ''B'']"
    by (simp add: pair_stage_def stamp_def wrappedTask_def runTask_def fixed_check_def
        crashing_check_def blank_result_def crash_result_def)
  finally show ?thesis using a b c by simp
qed

text \<open>
  Claim C3 as stated fails for a parallel stage with two checks of the same display name:
  when the second check settles first its result comes first, and two schedules give two
  different outputs.
\<close>

theorem same_name_checks_counterexample:
  "truthy (parallel twin_stage)
   \<and> map status (map (wrappedTask demo_context) (tasks twin_stage)) = [Pass, Warn]
   \<and> map_option (map status \<circ> fst) (run_stage demo_context 4 [1, 0] twin_stage)
       = Some [Warn, Pass]
   \<and> map_option (map status \<circ> fst) (run_stage demo_context 4 [0, 0] twin_stage)
       = Some [Pass, Warn]"
  by (simp add: run_stage_def twin_stage_def truthy_def runParallel_def par_loop.simps
      pick_def remove_nth_def wrappedTask_def runTask_def fixed_check_def blank_result_def
      sortResultsByTaskOrder_def js_sort_def compare_results_def)

lemma first_index_least:
  "first_index x ts = Some i \<Longrightarrow> j < i \<Longrightarrow> plugin_name (ts ! j) \<noteq> x"
proof (induction ts arbitrary: i j)
  case Nil
  then show ?case by simp
next
  case (Cons t ts)
  then show ?case
    by (cases j) (auto split: if_splits)
qed

lemma first_index_iff:
  "(first_index x ts = Some i)
   = (i < length ts \<and> plugin_name (ts ! i) = x \<and> (\<forall>j<i. plugin_name (ts ! j) \<noteq> x))"
proof
  assume "first_index x ts = Some i"
  then show "i < length ts \<and> plugin_name (ts ! i) = x \<and> (\<forall>j<i. plugin_name (ts ! j) \<noteq> x)"
    using first_index_Some first_index_least by blast
next
  assume r: "i < length ts \<and> plugin_name (ts ! i) = x \<and> (\<forall>j<i. plugin_name (ts ! j) \<noteq> x)"
  then have "x \<in> plugin_name ` set ts" by (metis imageI nth_mem)
  then obtain k where k: "first_index x ts = Some k"
    using first_index_None by (cases "first_index x ts") auto
  from first_index_Some [OF k] first_index_least [OF k] r have "k = i"
    by (metis linorder_neqE_nat)
  with k show "first_index x ts = Some i" by simp
qed

lemma order_key_build_order:
  "order_key ts r = (case build_order ts 0 Map.empty (name r) of Some i \<Rightarrow> i | None \<Rightarrow> length ts)"
  by (simp add: order_key_def build_order_first_index)

lemma filter_name_sortResults:
  "filter (\<lambda>r. name r = n) (sortResultsByTaskOrder rs ts) = filter (\<lambda>r. name r = n) rs"
proof -
  let ?k = "case first_index n ts of Some i \<Rightarrow> i | None \<Rightarrow> length ts"
  have imp: "\<And>r. name r = n \<Longrightarrow> order_key ts r = ?k"
    by (simp add: order_key_def)
  have "filter (\<lambda>r. name r = n) (sort_key (order_key ts) rs)
        = filter (\<lambda>r. name r = n) (filter (\<lambda>r. order_key ts r = ?k) (sort_key (order_key ts) rs))"
    using imp by (simp add: conj_commute cong: conj_cong)
  also have "\<dots> = filter (\<lambda>r. name r = n) (filter (\<lambda>r. order_key ts r = ?k) rs)"
    by (simp only: sort_key_stable)
  also have "\<dots> = filter (\<lambda>r. name r = n) rs"
    using imp by (simp add: conj_commute cong: conj_cong)
  finally show ?thesis by (simp add: sortResults_sort_key)
qed

text \<open>
  Claim C9, as amended. The re-sort keys each result by the name the result carries. When
  the check names are pairwise distinct and the results carry the names of their checks,
  any arrangement of the results is sorted into declaration order. The index the map
  \<open>order\<close> holds for a name is the position of the first check with that name; results that
  carry the same name keep their relative (completion) order; the sorted list is arranged
  by that index, a result whose name no check has coming after all others.
\<close>

theorem resort_keys_results_by_name:
  "(distinct (map plugin_name ts) \<and> map name expected = map plugin_name ts
      \<and> mset rs = mset expected
      \<longrightarrow> sortResultsByTaskOrder rs ts = expected)
   \<and> (build_order ts 0 Map.empty n = Some i)
       = (i < length ts \<and> plugin_name (ts ! i) = n \<and> (\<forall>j<i. plugin_name (ts ! j) \<noteq> n))
   \<and> filter (\<lambda>r. name r = n) (sortResultsByTaskOrder rs ts) = filter (\<lambda>r. name r = n) rs
   \<and> sorted (map (\<lambda>r. case build_order ts 0 Map.empty (name r) of
                          Some i \<Rightarrow> i | None \<Rightarrow> length ts)
               (sortResultsByTaskOrder rs ts))
   \<and> mset (sortResultsByTaskOrder rs ts) = mset rs"
proof -
  have "sorted (map (order_key ts) (sortResultsByTaskOrder rs ts))"
    by (simp add: sortResults_sort_key)
  then have "sorted (map (\<lambda>r. case build_order ts 0 Map.empty (name r) of
                          Some i \<Rightarrow> i | None \<Rightarrow> length ts)
               (sortResultsByTaskOrder rs ts))"
    by (simp add: order_key_build_order [abs_def])
  then show ?thesis
    using sort_restores_declaration_order [of ts expected rs]
    by (simp add: build_order_first_index first_index_iff filter_name_sortResults
        mset_sortResults)
qed

theorem resort_keys_results_by_name_witness:
  "distinct (map plugin_name (tasks pair_stage))
   \<and> map name (map (wrappedTask demo_context) (tasks pair_stage))
       = map plugin_name (tasks pair_stage)
   \<and> sortResultsByTaskOrder (rev (map (wrappedTask demo_context) (tasks pair_stage)))
        (tasks pair_stage)
       = map (wrappedTask demo_context) (tasks pair_stage)"
proof -
  have a: "distinct (map plugin_name (tasks pair_stage))"
    by (simp add: pair_stage_def fixed_check_def crashing_check_def)
  have b: "map name (map (wrappedTask demo_context) (tasks pair_stage))
           = map plugin_name (tasks pair_stage)"
    by (simp add: pair_stage_def wrappedTask_def runTask_def fixed_check_def
        crashing_check_def blank_result_def crash_result_def)
  have c: "mset (rev (map (wrappedTask demo_context) (tasks pair_stage)))
           = mset (map (wrappedTask demo_context) (tasks pair_stage))"
    by simp
  from a b c resort_keys_results_by_name
    [of "tasks pair_stage" "map (wrappedTask demo_context) (tasks pair_stage)"
        "rev (map (wrappedTask demo_context) (tasks pair_stage))"]
  show ?thesis by blast
qed

text \<open>
  Claim C9 as stated fails: the check names of a stage may be pairwise distinct while a
  result carries another name than its check. The tsc check, named \<open>Types (tsc)\<close>, reports
  as \<open>TypeScript\<close> when the tool is missing; declared first, its result comes last.
\<close>

theorem renamed_result_counterexample:
  "truthy (parallel tsc_stage) \<and> distinct (map plugin_name (tasks tsc_stage))
   \<and> map plugin_name (tasks tsc_stage) = [''Types (tsc)'', ''Biome'']
   \<and> map name (map (wrappedTask demo_context) (tasks tsc_stage)) = [''TypeScript'', ''Biome'']
   \<and> map_option (map name \<circ> fst) (run_stage demo_context 4 [0, 0] tsc_stage)
       = Some [''Biome'', ''TypeScript'']"
  by (simp add: run_stage_def tsc_stage_def truthy_def runParallel_def par_loop.simps
      pick_def remove_nth_def wrappedTask_def runTask_def fixed_check_def blank_result_def
      sortResultsByTaskOrder_def js_sort_def compare_results_def tscPlugin_def no_tools_def)

section \<open>Status and findings of the returned results\<close>

lemma stage_loop_results:
  assumes w: "1 \<le> maxW"
    and l: "stage_loop ctx maxW scheds sts [] [] = Some out"
    and r: "r \<in> set (results out)"
  shows "\<exists>st\<in>set sts. \<exists>t\<in>set (tasks st). r = stamp st (wrappedTask ctx t)"
proof -
  from stage_loop_spec [OF w, of ctx scheds sts "[]" "[]"] l obtain n rss where
    n: "n \<le> length sts" "length rss = n" and
    res: "results out = concat rss" and
    runs: "\<forall>k<n. run_stage ctx maxW (sched_of scheds k) (sts ! k)
              = Some (rss ! k, tasks (sts ! k))"
    by auto
  from r res obtain xs where xs: "xs \<in> set rss" "r \<in> set xs" by auto
  from xs(1) obtain k where "k < length rss" "rss ! k = xs"
    by (auto simp: in_set_conv_nth)
  with xs(2) n(2) have k: "k < n" "r \<in> set (rss ! k)" by simp_all
  from run_stage_mset [OF w, of ctx "sched_of scheds k" "sts ! k"] runs k(1)
  have "mset (rss ! k) = mset (map (\<lambda>t. stamp (sts ! k) (wrappedTask ctx t)) (tasks (sts ! k)))"
    by auto
  then have "set (rss ! k) = set (map (\<lambda>t. stamp (sts ! k) (wrappedTask ctx t)) (tasks (sts ! k)))"
    by (rule mset_eq_setD)
  with k(2) obtain t where "t \<in> set (tasks (sts ! k))" "r = stamp (sts ! k) (wrappedTask ctx t)"
    by auto
  moreover have "sts ! k \<in> set sts" using k(1) n(1) by simp
  ultimately show ?thesis by blast
qed

text \<open>
  Claim C4, as amended. Every result in the returned list belongs to a check of a stage of
  the configuration. When the check resolved, the result is the check's own result with
  the duration and the stage stamped on it: status and findings are what the check
  returned, and the scheduler derives no status from the findings. When the check
  rejected, the status is \<open>fail\<close> and some finding has severity \<open>error\<close>.
\<close>

theorem result_status_is_the_checks_own:
  assumes "runValidation w cfg options = Some out"
    and "r \<in> set (results out)"
  shows "\<exists>st\<in>set (stages cfg). \<exists>t\<in>set (tasks st).
           (case plugin_run t (fst (build_context w cfg options)) of
              (Resolved res, dt) \<Rightarrow>
                r = res\<lparr>durationMs := Some dt, stage := Some (stage_name st)\<rparr>
            | (Rejected err, dt) \<Rightarrow>
                status r = Fail \<and> list_ex (\<lambda>m. level m = ErrorL) (findings r)
                \<and> name r = plugin_name t \<and> stage r = Some (stage_name st))"
proof -
  let ?ctx = "fst (build_context w cfg options)"
  from stage_loop_results [OF worker_count_ge, of ?ctx w options "completion w" "stages cfg" out r]
    assms
  obtain st t where st: "st \<in> set (stages cfg)" and t: "t \<in> set (tasks st)"
    and r: "r = stamp st (wrappedTask ?ctx t)"
    by (auto simp: runValidation_def)
  have main: "case plugin_run t ?ctx of
              (Resolved res, dt) \<Rightarrow>
                r = res\<lparr>durationMs := Some dt, stage := Some (stage_name st)\<rparr>
            | (Rejected err, dt) \<Rightarrow>
                status r = Fail \<and> list_ex (\<lambda>m. level m = ErrorL) (findings r)
                \<and> name r = plugin_name t \<and> stage r = Some (stage_name st)"
    unfolding r
    by (cases "plugin_run t ?ctx"; cases "fst (plugin_run t ?ctx)")
       (auto simp: stamp_def wrappedTask_def runTask_def crash_result_def findings_def
          error_message_def)
  show ?thesis
    apply (rule bexI [where x = st])
     apply (rule bexI [where x = t])
      apply (rule main)
     apply (rule t)
    apply (rule st)
    done
qed

theorem result_status_is_the_checks_own_witness:
  "runValidation demo_world abort_config (demo_options Full) = Some abort_outcome
   \<and> (blank_result ''F'' Fail)\<lparr>durationMs := Some 1, stage := Some ''A''\<rparr>
       \<in> set (results abort_outcome)
   \<and> (\<exists>st\<in>set (stages abort_config). \<exists>t\<in>set (tasks st).
         (case plugin_run t (fst (build_context demo_world abort_config (demo_options Full))) of
            (Resolved res, dt) \<Rightarrow>
              (blank_result ''F'' Fail)\<lparr>durationMs := Some 1, stage := Some ''A''\<rparr>
                = res\<lparr>durationMs := Some dt, stage := Some (stage_name st)\<rparr>
          | (Rejected err, dt) \<Rightarrow>
              status ((blank_result ''F'' Fail)\<lparr>durationMs := Some 1, stage := Some ''A''\<rparr>) = Fail
              \<and> list_ex (\<lambda>m. level m = ErrorL)
                   (findings ((blank_result ''F'' Fail)\<lparr>durationMs := Some 1, stage := Some ''A''\<rparr>))
              \<and> name ((blank_result ''F'' Fail)\<lparr>durationMs := Some 1, stage := Some ''A''\<rparr>)
                  = plugin_name t
              \<and> stage ((blank_result ''F'' Fail)\<lparr>durationMs := Some 1, stage := Some ''A''\<rparr>)
                  = Some (stage_name st)))"
proof -
  have a: "runValidation demo_world abort_config (demo_options Full) = Some abort_outcome"
    by (simp add: runValidation_def abort_config_def run_stage_def truthy_def runSequential_def
        wrappedTask_def runTask_def fixed_check_def blank_result_def stage_aborts_def
        abort_outcome_def)
  have b: "(blank_result ''F'' Fail)\<lparr>durationMs := Some 1, stage := Some ''A''\<rparr>
       \<in> set (results abort_outcome)"
    by (simp add: abort_outcome_def)
  from a b result_status_is_the_checks_own [OF a b] show ?thesis by blast
qed

text \<open>
  Claim C4 as stated fails: when the gitleaks script exits non-zero the gitleaks check
  returns status \<open>fail\<close> and no finding at all.
\<close>

theorem fail_without_error_finding_counterexample:
  "\<exists>out. runValidation demo_world gitleaks_config (demo_options Full) = Some out
     \<and> map name (results out) = [''Security (gitleaks)'']
     \<and> map status (results out) = [Fail] \<and> map findings (results out) = [[]]"
  by (simp add: runValidation_def gitleaks_config_def run_stage_def truthy_def runSequential_def
        wrappedTask_def runTask_def stage_aborts_def gitleaksPlugin_def leaking_tools_def
        run_def findings_def)

section \<open>The aggregator\<close>

lemma consistent_comparatorD:
  assumes "consistent_comparator cmp"
  shows "cmp a b \<le> 0 \<or> cmp b a \<le> 0"
    and "cmp a b \<le> 0 \<Longrightarrow> cmp b c \<le> 0 \<Longrightarrow> cmp a c \<le> 0"
proof -
  from assms [unfolded consistent_comparator_def]
  have t1: "\<forall>a b. cmp a b \<le> 0 \<or> cmp b a \<le> 0" by (rule conjunct1)
  from assms [unfolded consistent_comparator_def]
  have t2: "\<forall>a b c. cmp a b \<le> 0 \<and> cmp b c \<le> 0 \<longrightarrow> cmp a c \<le> 0" by (rule conjunct2)
  show "cmp a b \<le> 0 \<or> cmp b a \<le> 0" by (rule t1 [rule_format])
  show "cmp a b \<le> 0 \<Longrightarrow> cmp b c \<le> 0 \<Longrightarrow> cmp a c \<le> 0"
    by (rule t2 [rule_format]) (rule conjI)
qed

lemma consistent_comparatorI:
  assumes "\<And>a b. cmp a b \<le> 0 \<or> cmp b a \<le> 0"
    and "\<And>a b c. cmp a b \<le> 0 \<Longrightarrow> cmp b c \<le> 0 \<Longrightarrow> cmp a c \<le> 0"
  shows "consistent_comparator cmp"
  unfolding consistent_comparator_def
proof (intro conjI allI impI)
  fix a b
  show "cmp a b \<le> 0 \<or> cmp b a \<le> 0" by (rule assms(1))
next
  fix a b c
  assume "cmp a b \<le> 0 \<and> cmp b c \<le> 0"
  then show "cmp a c \<le> 0" by (elim conjE) (rule assms(2))
qed

lemma mset_insert_by: "mset (insert_by cmp x ys) = add_mset x (mset ys)"
  by (induction ys) auto

lemma mset_js_sort: "mset (js_sort cmp xs) = mset xs"
  by (induction xs) (auto simp: js_sort_def mset_insert_by)

lemma set_js_sort: "set (js_sort cmp xs) = set xs"
  using mset_js_sort [of cmp xs] by (metis set_mset_mset)

lemma set_insert_by: "set (insert_by cmp x ys) = insert x (set ys)"
  using mset_insert_by [of cmp x ys] by (metis set_mset_mset set_mset_add_mset_insert)

lemma sorted_insert_by:
  assumes cc: "consistent_comparator cmp"
  shows "sorted_wrt (\<lambda>a b. cmp a b \<le> 0) ys
         \<Longrightarrow> sorted_wrt (\<lambda>a b. cmp a b \<le> 0) (insert_by cmp x ys)"
proof (induction ys)
  case Nil
  then show ?case by simp
next
  case (Cons y ys)
  show ?case
  proof (cases "cmp x y \<le> 0")
    case True
    have "\<forall>z\<in>set ys. cmp x z \<le> 0"
    proof
      fix z assume "z \<in> set ys"
      with Cons.prems have "cmp y z \<le> 0" by simp
      with True show "cmp x z \<le> 0" by (rule consistent_comparatorD(2) [OF cc])
    qed
    with True Cons.prems show ?thesis by simp
  next
    case False
    with consistent_comparatorD(1) [OF cc, of x y] have "cmp y x \<le> 0" by simp
    with False Cons show ?thesis by (simp add: set_insert_by)
  qed
qed

lemma sorted_js_sort:
  assumes cc: "consistent_comparator cmp"
  shows "sorted_wrt (\<lambda>a b. cmp a b \<le> 0) (js_sort cmp xs)"
proof (induction xs)
  case Nil
  show ?case by (simp add: js_sort_def)
next
  case (Cons x xs)
  have "js_sort cmp (x # xs) = insert_by cmp x (js_sort cmp xs)" by (simp add: js_sort_def)
  with Cons sorted_insert_by [OF cc] show ?case by simp
qed

lemma map_of_map_set: "map_of (map_set k v m) = (map_of m)(k \<mapsto> v)"
  by (induction m) (auto simp: fun_eq_iff)

lemma keys_map_set:
  "map fst (map_set k v m) = (if k \<in> fst ` set m then map fst m else map fst m @ [k])"
  by (induction m) auto

lemma distinct_map_set: "distinct (map fst m) \<Longrightarrow> distinct (map fst (map_set k v m))"
  by (simp add: keys_map_set)

lemma group_step_map_of:
  "map_of (group_step gm f) k =
     (if fcode f = k
      then Some (absorb (case map_of gm k of None \<Rightarrow> new_group f | Some g \<Rightarrow> g) f)
      else map_of gm k)"
  by (auto simp: group_step_def Let_def map_of_map_set split: option.splits)

lemma group_step_distinct: "distinct (map fst gm) \<Longrightarrow> distinct (map fst (group_step gm f))"
  by (auto simp: group_step_def Let_def distinct_map_set split: option.splits)

lemma foldl_group_step_distinct:
  "distinct (map fst gm) \<Longrightarrow> distinct (map fst (foldl group_step gm fs))"
  by (induction fs arbitrary: gm) (auto simp: group_step_distinct)

lemma foldl_group_step_map_of:
  "map_of (foldl group_step gm fs) k =
     (case filter (\<lambda>f. fcode f = k) fs of
        [] \<Rightarrow> map_of gm k
      | f0 # others \<Rightarrow>
          Some (foldl absorb (case map_of gm k of None \<Rightarrow> new_group f0 | Some g \<Rightarrow> g)
                  (f0 # others)))"
proof (induction fs arbitrary: gm)
  case Nil
  show ?case by simp
next
  case (Cons f fs)
  show ?case
    by (cases "filter (\<lambda>f. fcode f = k) fs")
       (simp_all add: Cons.IH group_step_map_of)
qed

lemma absorb_fold_rule: "rule (foldl absorb g fs) = rule g"
  by (induction fs arbitrary: g) (auto simp: absorb_def)

lemma absorb_fold_count: "rcount (foldl absorb g fs) = rcount g + length fs"
  by (induction fs arbitrary: g) (auto simp: absorb_def)

lemma absorb_fold_files:
  "fileViolations (foldl absorb g fs) = foldl (\<lambda>fv f. add_file f fv) (fileViolations g) fs"
  by (induction fs arbitrary: g) (auto simp: absorb_def)

lemma absorb_fold_severity:
  "SEVERITY_ORDER (severity (foldl absorb g fs)) \<le> SEVERITY_ORDER (severity g)
   \<and> (\<forall>f\<in>set fs. SEVERITY_ORDER (severity (foldl absorb g fs)) \<le> SEVERITY_ORDER (flevel f))
   \<and> (severity (foldl absorb g fs) = severity g
        \<or> severity (foldl absorb g fs) \<in> flevel ` set fs)"
proof (induction fs arbitrary: g)
  case Nil
  show ?case by simp
next
  case (Cons f fs)
  from Cons.IH [of "absorb g f"] show ?case
    by (auto simp: absorb_def split: if_splits)
qed

lemma add_file_count:
  "map_option file_count (map_of (add_file f fv) k) =
     (if ffile f \<noteq> [] \<and> file_key f = k
      then Some (case map_of fv k of None \<Rightarrow> 1 | Some d \<Rightarrow> file_count d + 1)
      else map_option file_count (map_of fv k))"
  by (auto simp: add_file_def Let_def map_of_map_set split: option.splits)

lemma add_file_distinct: "distinct (map fst fv) \<Longrightarrow> distinct (map fst (add_file f fv))"
  by (simp add: add_file_def Let_def distinct_map_set)

lemma fold_add_file_distinct:
  "distinct (map fst fv) \<Longrightarrow> distinct (map fst (foldl (\<lambda>fv f. add_file f fv) fv fs))"
  by (induction fs arbitrary: fv) (auto simp: add_file_distinct)

lemma fold_add_file_count:
  "map_option file_count (map_of (foldl (\<lambda>fv f. add_file f fv) fv fs) k) =
     (case map_of fv k of
        None \<Rightarrow> if filter (\<lambda>f. ffile f \<noteq> [] \<and> file_key f = k) fs = [] then None
                else Some (length (filter (\<lambda>f. ffile f \<noteq> [] \<and> file_key f = k) fs))
      | Some d \<Rightarrow> Some (file_count d + length (filter (\<lambda>f. ffile f \<noteq> [] \<and> file_key f = k) fs)))"
proof (induction fs arbitrary: fv)
  case Nil
  show ?case by (simp split: option.splits)
next
  case (Cons f fs)
  have c: "map_option file_count (map_of (add_file f fv) k) =
     (if ffile f \<noteq> [] \<and> file_key f = k
      then Some (case map_of fv k of None \<Rightarrow> 1 | Some d \<Rightarrow> file_count d + 1)
      else map_option file_count (map_of fv k))"
    by (rule add_file_count)
  show ?case
    using c by (cases "map_of (add_file f fv) k"; cases "map_of fv k")
      (auto simp: Cons.IH [of "add_file f fv"] split: if_splits)
qed

lemma compare_violations_le:
  "(compare_violations lc a b \<le> 0) =
     (SEVERITY_ORDER (severity a) < SEVERITY_ORDER (severity b)
      \<or> (severity a = severity b \<and> lc (rule a) (rule b) \<le> 0))"
  by (cases "severity a"; cases "severity b")
     (auto simp: compare_violations_def Let_def SEVERITY_ORDER_def)

lemma SEVERITY_ORDER_eq_iff: "(SEVERITY_ORDER a = SEVERITY_ORDER b) = (a = b)"
  by (cases a; cases b) (simp_all add: SEVERITY_ORDER_def)

lemma compare_violations_consistent:
  assumes cc: "consistent_comparator lc"
  shows "consistent_comparator (compare_violations lc)"
proof (rule consistent_comparatorI)
  fix a b :: rule_violation
  show "compare_violations lc a b \<le> 0 \<or> compare_violations lc b a \<le> 0"
    using consistent_comparatorD(1) [OF cc, of "rule a" "rule b"]
    unfolding compare_violations_le
    by (cases "SEVERITY_ORDER (severity a) < SEVERITY_ORDER (severity b)";
        cases "SEVERITY_ORDER (severity b) < SEVERITY_ORDER (severity a)")
       (simp_all add: SEVERITY_ORDER_eq_iff [symmetric])
next
  fix a b c :: rule_violation
  assume ab: "compare_violations lc a b \<le> 0" and bc: "compare_violations lc b c \<le> 0"
  from ab have 1: "SEVERITY_ORDER (severity a) < SEVERITY_ORDER (severity b)
      \<or> (SEVERITY_ORDER (severity a) = SEVERITY_ORDER (severity b) \<and> lc (rule a) (rule b) \<le> 0)"
    by (simp only: compare_violations_le SEVERITY_ORDER_eq_iff)
  from bc have 2: "SEVERITY_ORDER (severity b) < SEVERITY_ORDER (severity c)
      \<or> (SEVERITY_ORDER (severity b) = SEVERITY_ORDER (severity c) \<and> lc (rule b) (rule c) \<le> 0)"
    by (simp only: compare_violations_le SEVERITY_ORDER_eq_iff)
  show "compare_violations lc a c \<le> 0"
  proof (cases "SEVERITY_ORDER (severity a) < SEVERITY_ORDER (severity c)")
    case True
    then show ?thesis by (simp only: compare_violations_le) simp
  next
    case False
    with 1 2 have eq: "SEVERITY_ORDER (severity a) = SEVERITY_ORDER (severity b)"
        "SEVERITY_ORDER (severity b) = SEVERITY_ORDER (severity c)"
      and le: "lc (rule a) (rule b) \<le> 0" "lc (rule b) (rule c) \<le> 0"
      by linarith+
    from le have "lc (rule a) (rule c) \<le> 0" by (rule consistent_comparatorD(2) [OF cc])
    moreover from eq have "severity a = severity c" by (simp add: SEVERITY_ORDER_eq_iff)
    ultimately show ?thesis by (simp only: compare_violations_le) simp
  qed
qed

lemma compare_keys_consistent:
  assumes cc: "consistent_comparator lc"
  shows "consistent_comparator (compare_keys lc)"
proof (rule consistent_comparatorI)
  fix a b :: "string \<times> 'v"
  show "compare_keys lc a b \<le> 0 \<or> compare_keys lc b a \<le> 0"
    unfolding compare_keys_def by (rule consistent_comparatorD(1) [OF cc])
next
  fix a b c :: "string \<times> 'v"
  assume "compare_keys lc a b \<le> 0" "compare_keys lc b c \<le> 0"
  then show "compare_keys lc a c \<le> 0"
    unfolding compare_keys_def by (rule consistent_comparatorD(2) [OF cc])
qed

lemma finish_group_simps:
  "rule (finish_group lc g) = rule g"
  "severity (finish_group lc g) = severity g"
  "rcount (finish_group lc g) = rcount g"
  "fileViolations (finish_group lc g) = js_sort (compare_keys lc) (fileViolations g)"
  by (simp_all add: finish_group_def)

lemma group_of_code:
  assumes "(k, g) \<in> set (foldl group_step [] fs)"
  shows "\<exists>f0 others. filter (\<lambda>f. fcode f = k) fs = f0 # others
           \<and> g = foldl absorb (new_group f0) (f0 # others)"
proof -
  have "distinct (map fst (foldl group_step [] fs))"
    by (rule foldl_group_step_distinct) simp
  with assms have "map_of (foldl group_step [] fs) k = Some g" by simp
  then show ?thesis
    by (cases "filter (\<lambda>f. fcode f = k) fs") (simp_all add: foldl_group_step_map_of)
qed

lemma group_keys: "fst ` set (foldl group_step [] fs) = fcode ` set fs"
proof -
  have "\<And>k. (k \<in> dom (map_of (foldl group_step [] fs))) = (k \<in> fcode ` set fs)"
  proof -
    fix k
    show "(k \<in> dom (map_of (foldl group_step [] fs))) = (k \<in> fcode ` set fs)"
      by (cases "filter (\<lambda>f. fcode f = k) fs")
         (auto simp: foldl_group_step_map_of dom_def filter_empty_conv
            dest: filter_eq_ConsD)
  qed
  then show ?thesis by (auto simp: dom_map_of_conv_image_fst)
qed

lemma group_rule:
  assumes "(k, g) \<in> set (foldl group_step [] fs)"
  shows "rule g = k"
proof -
  from group_of_code [OF assms] obtain f0 others where
    f: "filter (\<lambda>f. fcode f = k) fs = f0 # others"
    and g: "g = foldl absorb (new_group f0) (f0 # others)" by blast
  from f have "f0 \<in> set (filter (\<lambda>f. fcode f = k) fs)" by simp
  then have "fcode f0 = k" by simp
  with g show ?thesis by (simp only: absorb_fold_rule) (simp add: new_group_def)
qed

lemma map_of_permuted:
  assumes d: "distinct (map fst xs)" and m: "mset ys = mset xs"
  shows "map_of ys = map_of xs"
proof (rule ext)
  fix k
  have "mset (map fst ys) = mset (map fst xs)" using m by simp
  then have dy: "distinct (map fst ys)" using d by (metis mset_eq_imp_distinct_iff)
  have s: "set ys = set xs" using m by (rule mset_eq_setD)
  show "map_of ys k = map_of xs k"
  proof (cases "map_of xs k")
    case None
    then have "k \<notin> fst ` set ys" using s by (simp add: map_of_eq_None_iff)
    then have "map_of ys k = None" by (simp only: map_of_eq_None_iff not_False_eq_True)
    with None show ?thesis by simp
  next
    case (Some v)
    then have "(k, v) \<in> set ys" using s by (auto dest: map_of_SomeD)
    with dy Some show ?thesis by simp
  qed
qed

lemma group_facts:
  assumes e: "(k, g0) \<in> set (foldl group_step [] fs)"
  shows "rcount g0 = length (filter (\<lambda>f. fcode f = k) fs)"
    and "\<exists>f\<in>set fs. fcode f = k \<and> flevel f = severity g0"
    and "\<forall>f\<in>set fs. fcode f = k \<longrightarrow> SEVERITY_ORDER (severity g0) \<le> SEVERITY_ORDER (flevel f)"
    and "distinct (map fst (fileViolations g0))"
    and "map_option file_count (map_of (fileViolations g0) key)
         = (if filter (\<lambda>f. fcode f = k \<and> ffile f \<noteq> [] \<and> file_key f = key) fs = [] then None
            else Some (length (filter (\<lambda>f. fcode f = k \<and> ffile f \<noteq> [] \<and> file_key f = key) fs)))"
proof -
  from group_of_code [OF e] obtain f0 others where
    f: "filter (\<lambda>f. fcode f = k) fs = f0 # others"
    and g: "g0 = foldl absorb (new_group f0) (f0 # others)" by blast
  let ?F = "filter (\<lambda>f. fcode f = k) fs"
  have g': "g0 = foldl absorb (new_group f0) ?F" using f g by simp
  show "rcount g0 = length ?F"
    unfolding g' by (simp only: absorb_fold_count) (simp add: new_group_def)
  have f0: "f0 \<in> set ?F" using f by simp
  from absorb_fold_severity [of "new_group f0" ?F]
  have le: "\<forall>f\<in>set ?F. SEVERITY_ORDER (severity g0) \<le> SEVERITY_ORDER (flevel f)"
    and mem: "severity g0 = flevel f0 \<or> severity g0 \<in> flevel ` set ?F"
    unfolding g' by (simp_all add: new_group_def)
  from mem f0 have "severity g0 \<in> flevel ` set ?F" by auto
  then show "\<exists>f\<in>set fs. fcode f = k \<and> flevel f = severity g0" by auto
  from le show "\<forall>f\<in>set fs. fcode f = k \<longrightarrow> SEVERITY_ORDER (severity g0) \<le> SEVERITY_ORDER (flevel f)"
    by simp
  have fv: "fileViolations g0 = foldl (\<lambda>fv f. add_file f fv) [] ?F"
    unfolding g' by (simp only: absorb_fold_files) (simp add: new_group_def)
  show "distinct (map fst (fileViolations g0))"
    unfolding fv by (rule fold_add_file_distinct) simp
  have ff: "filter (\<lambda>f. ffile f \<noteq> [] \<and> file_key f = key) ?F
            = filter (\<lambda>f. fcode f = k \<and> ffile f \<noteq> [] \<and> file_key f = key) fs"
    by (simp add: conj_commute cong: conj_cong)
  show "map_option file_count (map_of (fileViolations g0) key)
         = (if filter (\<lambda>f. fcode f = k \<and> ffile f \<noteq> [] \<and> file_key f = key) fs = [] then None
            else Some (length (filter (\<lambda>f. fcode f = k \<and> ffile f \<noteq> [] \<and> file_key f = key) fs)))"
    unfolding fv by (simp only: fold_add_file_count ff) simp
qed

lemma byte_compare_Cons:
  "(byte_compare (x # xs) (y # ys) \<le> 0)
   = (char_code x < char_code y \<or> (char_code x = char_code y \<and> byte_compare xs ys \<le> 0))"
  by (cases "char_code x < char_code y"; cases "char_code y < char_code x") simp_all

lemma byte_compare_total: "byte_compare a b \<le> 0 \<or> byte_compare b a \<le> 0"
proof (induction a b rule: byte_compare.induct)
  case (4 x xs y ys)
  then show ?case
    by (cases "char_code x < char_code y"; cases "char_code y < char_code x") simp_all
qed simp_all

lemma byte_compare_trans:
  "byte_compare a b \<le> 0 \<Longrightarrow> byte_compare b c \<le> 0 \<Longrightarrow> byte_compare a c \<le> 0"
proof (induction a b arbitrary: c rule: byte_compare.induct)
  case 1
  then show ?case by simp
next
  case (2 y ys)
  then show ?case by (cases c) simp_all
next
  case (3 x xs)
  then show ?case by simp
next
  case (4 x xs y ys)
  show ?case
  proof (cases c)
    case Nil
    with "4.prems"(2) show ?thesis by simp
  next
    case (Cons z zs)
    from "4.prems"(1) have xy: "char_code x < char_code y
        \<or> (char_code x = char_code y \<and> byte_compare xs ys \<le> 0)"
      by (simp only: byte_compare_Cons)
    from "4.prems"(2) Cons have yz: "char_code y < char_code z
        \<or> (char_code y = char_code z \<and> byte_compare ys zs \<le> 0)"
      by (simp only: byte_compare_Cons)
    show ?thesis
    proof (cases "char_code x < char_code z")
      case True
      then show ?thesis unfolding Cons by (simp only: byte_compare_Cons) simp
    next
      case False
      with xy yz have eq: "char_code x = char_code y" "char_code y = char_code z"
        and le: "byte_compare xs ys \<le> 0" "byte_compare ys zs \<le> 0"
        by linarith+
      from eq have "\<not> char_code x < char_code y" "\<not> char_code y < char_code x" by simp_all
      from "4.IH" [OF this le] have "byte_compare xs zs \<le> 0" .
      with eq show ?thesis unfolding Cons by (simp only: byte_compare_Cons) simp
    qed
  qed
qed

lemma byte_compare_consistent: "consistent_comparator byte_compare"
  by (rule consistent_comparatorI) (rule byte_compare_total, rule byte_compare_trans)

text \<open>
  Claim C8, as amended. For every list of findings and every consistent \<open>localeCompare\<close>,
  the aggregator returns one group per rule code that occurs. A group counts the findings
  of its code, and its severity is the most severe level among them. The entries of a
  group are keyed by \<open>file:line\<close> when the finding has a line number and by \<open>file\<close>
  otherwise; the keys are distinct and sorted by \<open>localeCompare\<close>, and each entry counts the
  findings of the group with that key. The groups are ordered by severity (error before
  warn before info) and then by \<open>localeCompare\<close> of the code.
\<close>

theorem aggregateByRule_groups:
  assumes cc: "consistent_comparator lc"
  shows "distinct (map rule (aggregateByRule lc fs))
     \<and> set (map rule (aggregateByRule lc fs)) = fcode ` set fs
     \<and> (\<forall>g\<in>set (aggregateByRule lc fs).
          rcount g = length (filter (\<lambda>f. fcode f = rule g) fs)
          \<and> (\<exists>f\<in>set fs. fcode f = rule g \<and> flevel f = severity g)
          \<and> (\<forall>f\<in>set fs. fcode f = rule g
                \<longrightarrow> SEVERITY_ORDER (severity g) \<le> SEVERITY_ORDER (flevel f))
          \<and> sorted_wrt (\<lambda>a b. lc (fst a) (fst b) \<le> 0) (fileViolations g)
          \<and> distinct (map fst (fileViolations g))
          \<and> (\<forall>key. map_option file_count (map_of (fileViolations g) key)
                = (if filter (\<lambda>f. fcode f = rule g \<and> ffile f \<noteq> [] \<and> file_key f = key) fs = []
                   then None
                   else Some (length (filter (\<lambda>f. fcode f = rule g \<and> ffile f \<noteq> []
                                \<and> file_key f = key) fs)))))
     \<and> sorted_wrt (\<lambda>a b. SEVERITY_ORDER (severity a) < SEVERITY_ORDER (severity b)
                        \<or> (severity a = severity b \<and> lc (rule a) (rule b) \<le> 0))
          (aggregateByRule lc fs)"
proof -
  let ?gm = "foldl group_step [] fs"
  let ?G = "map (\<lambda>e. finish_group lc (snd e)) ?gm"
  have agg: "aggregateByRule lc fs = js_sort (compare_violations lc) ?G"
    by (simp add: aggregateByRule_def)
  have rules: "map rule ?G = map fst ?gm"
    by (auto simp: finish_group_simps dest: group_rule)
  have dgm: "distinct (map fst ?gm)" by (rule foldl_group_step_distinct) simp
  have "mset (map rule (aggregateByRule lc fs)) = mset (map fst ?gm)"
    unfolding agg by (simp add: mset_js_sort rules [symmetric] del: map_map)
  then have c1: "distinct (map rule (aggregateByRule lc fs))"
    and c2: "set (map rule (aggregateByRule lc fs)) = fcode ` set fs"
    using dgm group_keys [of fs]
    by (metis mset_eq_imp_distinct_iff, metis mset_eq_setD set_map)
  have c3: "\<forall>g\<in>set (aggregateByRule lc fs).
          rcount g = length (filter (\<lambda>f. fcode f = rule g) fs)
          \<and> (\<exists>f\<in>set fs. fcode f = rule g \<and> flevel f = severity g)
          \<and> (\<forall>f\<in>set fs. fcode f = rule g
                \<longrightarrow> SEVERITY_ORDER (severity g) \<le> SEVERITY_ORDER (flevel f))
          \<and> sorted_wrt (\<lambda>a b. lc (fst a) (fst b) \<le> 0) (fileViolations g)
          \<and> distinct (map fst (fileViolations g))
          \<and> (\<forall>key. map_option file_count (map_of (fileViolations g) key)
                = (if filter (\<lambda>f. fcode f = rule g \<and> ffile f \<noteq> [] \<and> file_key f = key) fs = []
                   then None
                   else Some (length (filter (\<lambda>f. fcode f = rule g \<and> ffile f \<noteq> []
                                \<and> file_key f = key) fs))))"
  proof
    fix g assume "g \<in> set (aggregateByRule lc fs)"
    then have "g \<in> set ?G" unfolding agg by (simp only: set_js_sort)
    then obtain k g0 where e: "(k, g0) \<in> set ?gm" and g: "g = finish_group lc g0"
      by auto
    have k: "rule g = k" using group_rule [OF e] g by (simp add: finish_group_simps)
    have fv: "fileViolations g = js_sort (compare_keys lc) (fileViolations g0)"
      using g by (simp add: finish_group_simps)
    have d0: "distinct (map fst (fileViolations g0))" by (rule group_facts(4) [OF e])
    have m: "mset (fileViolations g) = mset (fileViolations g0)"
      unfolding fv by (rule mset_js_sort)
    have "mset (map fst (fileViolations g)) = mset (map fst (fileViolations g0))"
      using m by simp
    then have d: "distinct (map fst (fileViolations g))"
      using d0 by (metis mset_eq_imp_distinct_iff)
    have mo: "map_of (fileViolations g) = map_of (fileViolations g0)"
      using d0 m by (rule map_of_permuted)
    have "sorted_wrt (\<lambda>a b. compare_keys lc a b \<le> 0) (fileViolations g)"
      unfolding fv
      by (rule sorted_js_sort) (rule compare_keys_consistent [OF cc])
    then have srt: "sorted_wrt (\<lambda>a b. lc (fst a) (fst b) \<le> 0) (fileViolations g)"
      by (simp add: compare_keys_def)
    show "rcount g = length (filter (\<lambda>f. fcode f = rule g) fs)
          \<and> (\<exists>f\<in>set fs. fcode f = rule g \<and> flevel f = severity g)
          \<and> (\<forall>f\<in>set fs. fcode f = rule g
                \<longrightarrow> SEVERITY_ORDER (severity g) \<le> SEVERITY_ORDER (flevel f))
          \<and> sorted_wrt (\<lambda>a b. lc (fst a) (fst b) \<le> 0) (fileViolations g)
          \<and> distinct (map fst (fileViolations g))
          \<and> (\<forall>key. map_option file_count (map_of (fileViolations g) key)
                = (if filter (\<lambda>f. fcode f = rule g \<and> ffile f \<noteq> [] \<and> file_key f = key) fs = []
                   then None
                   else Some (length (filter (\<lambda>f. fcode f = rule g \<and> ffile f \<noteq> []
                                \<and> file_key f = key) fs))))"
      using group_facts(1-3) [OF e] group_facts(5) [OF e] srt d
      unfolding k mo by (simp add: g finish_group_simps)
  qed
  have "sorted_wrt (\<lambda>a b. compare_violations lc a b \<le> 0) (aggregateByRule lc fs)"
    unfolding agg by (rule sorted_js_sort) (rule compare_violations_consistent [OF cc])
  then have c4: "sorted_wrt (\<lambda>a b. SEVERITY_ORDER (severity a) < SEVERITY_ORDER (severity b)
                        \<or> (severity a = severity b \<and> lc (rule a) (rule b) \<le> 0))
          (aggregateByRule lc fs)"
    by (simp only: compare_violations_le)
  from c1 c2 c3 c4 show ?thesis by blast
qed

text \<open>The comparison by character codes is consistent; four findings of two codes.\<close>

theorem aggregateByRule_groups_witness:
  "consistent_comparator byte_compare
   \<and> distinct (map rule (aggregateByRule byte_compare demo_findings))
   \<and> set (map rule (aggregateByRule byte_compare demo_findings)) = fcode ` set demo_findings
   \<and> map rule (aggregateByRule byte_compare demo_findings) = [''arch/y'', ''arch/x'']
   \<and> map severity (aggregateByRule byte_compare demo_findings) = [ErrorL, WarnL]"
proof -
  have "map rule (aggregateByRule byte_compare demo_findings) = [''arch/y'', ''arch/x'']
    \<and> map severity (aggregateByRule byte_compare demo_findings) = [ErrorL, WarnL]"
    by (simp add: aggregateByRule_def demo_findings_def mk_finding_def group_step_def
        new_group_def absorb_def add_file_def file_key_def string_of_nat.simps digit_char_def
        finish_group_def js_sort_def compare_keys_def compare_violations_def SEVERITY_ORDER_def
        truthy_string_def char_code_def)
  then have ev1: "map rule (aggregateByRule byte_compare demo_findings) = [''arch/y'', ''arch/x'']"
    and ev2: "map severity (aggregateByRule byte_compare demo_findings) = [ErrorL, WarnL]"
    by (rule conjunct1, rule conjunct2)
  note th = aggregateByRule_groups [OF byte_compare_consistent, of demo_findings]
  from th have a: "distinct (map rule (aggregateByRule byte_compare demo_findings))"
    by (rule conjunct1)
  from th have b: "set (map rule (aggregateByRule byte_compare demo_findings))
                   = fcode ` set demo_findings"
    by (rule conjunct1 [OF conjunct2])
  show ?thesis
    by (intro conjI) (rule byte_compare_consistent a b ev1 ev2)+
qed

text \<open>
  Claim C8 as stated fails on the per-file counts: two findings of one code in the same
  file, on lines 3 and 5, give two entries with count 1 each, not one entry for the file
  with count 2.
\<close>

theorem per_line_entries_counterexample:
  "map ffile split_findings = [''src/a.ts'', ''src/a.ts'']
   \<and> map rule (aggregateByRule byte_compare split_findings) = [''arch/y'']
   \<and> map (map fst \<circ> fileViolations) (aggregateByRule byte_compare split_findings)
       = [[''src/a.ts:3'', ''src/a.ts:5'']]
   \<and> map (map (file_count \<circ> snd) \<circ> fileViolations) (aggregateByRule byte_compare split_findings)
       = [[1, 1]]"
  by (simp add: aggregateByRule_def split_findings_def mk_finding_def group_step_def
      new_group_def absorb_def add_file_def file_key_def string_of_nat.simps digit_char_def
      finish_group_def js_sort_def compare_keys_def compare_violations_def SEVERITY_ORDER_def
      truthy_string_def char_code_def)

section \<open>The driver and unknown reporters\<close>

lemma split_on_no_sep: "c \<notin> set v \<Longrightarrow> split_on c v = [v]"
  by (induction v) auto

lemma split_on_prefix: "c \<notin> set p \<Longrightarrow> split_on c (p @ c # rest) = p # split_on c rest"
  by (induction p) auto

lemma split_on_takeWhile: "\<exists>ps. split_on c s = takeWhile (\<lambda>x. x \<noteq> c) s # ps"
  by (induction s) (auto split: list.splits)

lemma key_value_report_arg:
  "key_value (report_arg v) = (''--report'', takeWhile (\<lambda>c. c \<noteq> CHR ''='') v)"
proof -
  obtain ps where ps: "split_on CHR ''='' v = takeWhile (\<lambda>c. c \<noteq> CHR ''='') v # ps"
    using split_on_takeWhile by blast
  have "split_on CHR ''='' (''--report'' @ CHR ''='' # v) = ''--report'' # split_on CHR ''='' v"
    by (rule split_on_prefix) simp
  then have "split_on CHR ''='' (report_arg v)
             = ''--report'' # takeWhile (\<lambda>c. c \<noteq> CHR ''='') v # ps"
    using ps by (simp add: report_arg_def)
  moreover have "CHR ''='' \<in> set (report_arg v)" by (simp add: report_arg_def)
  ultimately show ?thesis by (simp add: key_value_def)
qed

lemma key_value_bare_report: "key_value ''--report'' = (''--report'', ''true'')"
  by (simp add: key_value_def)

lemma parse_arg_report_ignored:
  assumes "key_value a = (''--report'', u)" and "u \<notin> {''summary'', ''json'', ''junit''}"
  shows "parse_arg n opts a = opts"
  using assms by (simp add: parse_arg_def parse_report_def)

lemma unknown_report_arg:
  assumes "takeWhile (\<lambda>c. c \<noteq> CHR ''='') v \<notin> {''summary'', ''json'', ''junit''}"
    and "a = report_arg v \<or> a = ''--report''"
  shows "parse_arg n opts a = opts" and "startsWithDash a"
proof -
  from assms(2) show "startsWithDash a"
    by (auto simp: startsWithDash_def report_arg_def)
  from assms(2) show "parse_arg n opts a = opts"
  proof
    assume "a = report_arg v"
    then show ?thesis
      using parse_arg_report_ignored [OF _ assms(1), of a n opts] by (simp add: key_value_report_arg)
  next
    assume "a = ''--report''"
    then show ?thesis
      using parse_arg_report_ignored [of a "''true''" n opts] by (simp add: key_value_bare_report)
  qed
qed

lemma find_skip: "\<not> P b \<Longrightarrow> find P (xs @ [b] @ ys) = find P (xs @ ys)"
  by (induction xs) auto

lemma parseArgs_skip:
  assumes "parse_arg n (foldl (parse_arg n) no_options xs) a = foldl (parse_arg n) no_options xs"
    and "startsWithDash a"
  shows "parseArgs n (a0 # a1 # xs @ [a] @ ys) = parseArgs n (a0 # a1 # xs @ ys)"
proof -
  have f: "find (\<lambda>a. \<not> startsWithDash a) (xs @ [a] @ ys)
           = find (\<lambda>a. \<not> startsWithDash a) (xs @ ys)"
    by (rule find_skip) (simp add: assms(2))
  have "foldl (parse_arg n) no_options (xs @ [a] @ ys)
        = foldl (parse_arg n) no_options (xs @ ys)"
    by (simp add: assms(1))
  with f show ?thesis by (simp add: parseArgs_def)
qed

lemma parse_arg_keeps_help:
  "fst (key_value b) \<notin> {''--help'', ''-h''} \<Longrightarrow> cli_help (parse_arg n opts b) = cli_help opts"
  by (cases "key_value b") (simp add: parse_arg_def split: option.splits)

lemma parse_arg_keeps_version:
  "fst (key_value b) \<notin> {''--version'', ''-v''}
   \<Longrightarrow> cli_version (parse_arg n opts b) = cli_version opts"
  by (cases "key_value b") (simp add: parse_arg_def split: option.splits)

lemma parse_arg_report_summary:
  assumes "\<not> (fst (key_value b) = ''--report'' \<and> snd (key_value b) \<in> {''json'', ''junit''})"
    and "cli_report opts \<in> {None, Some Summary}"
  shows "cli_report (parse_arg n opts b) \<in> {None, Some Summary}"
  using assms
  by (cases "key_value b") (auto simp: parse_arg_def parse_report_def split: option.splits)

lemma foldl_keeps_help:
  "\<forall>b\<in>set args. fst (key_value b) \<notin> {''--help'', ''-h''}
   \<Longrightarrow> cli_help (foldl (parse_arg n) opts args) = cli_help opts"
  by (induction args arbitrary: opts) (simp_all add: parse_arg_keeps_help)

lemma foldl_keeps_version:
  "\<forall>b\<in>set args. fst (key_value b) \<notin> {''--version'', ''-v''}
   \<Longrightarrow> cli_version (foldl (parse_arg n) opts args) = cli_version opts"
  by (induction args arbitrary: opts) (simp_all add: parse_arg_keeps_version)

lemma foldl_report_summary:
  "\<forall>b\<in>set args. \<not> (fst (key_value b) = ''--report'' \<and> snd (key_value b) \<in> {''json'', ''junit''})
   \<Longrightarrow> cli_report opts \<in> {None, Some Summary}
   \<Longrightarrow> cli_report (foldl (parse_arg n) opts args) \<in> {None, Some Summary}"
proof (induction args arbitrary: opts)
  case Nil
  then show ?case by simp
next
  case (Cons b args)
  from Cons.prems have "cli_report (parse_arg n opts b) \<in> {None, Some Summary}"
    by (intro parse_arg_report_summary) simp_all
  moreover from Cons.prems(1)
  have "\<forall>b\<in>set args. \<not> (fst (key_value b) = ''--report''
          \<and> snd (key_value b) \<in> {''json'', ''junit''})"
    by simp
  ultimately have "cli_report (foldl (parse_arg n) (parse_arg n opts b) args)
      \<in> {None, Some Summary}"
    by (rule Cons.IH [rotated])
  then show ?case by simp
qed

lemma runValidation_starts_first_stage:
  "\<exists>out. runValidation w cfg options = Some out
     \<and> (\<forall>st sts t. stages cfg = st # sts \<and> t \<in> set (tasks st)
          \<longrightarrow> plugin_name t \<in> set (started_checks out))"
proof -
  from stage_loop_spec [OF worker_count_ge, of "fst (build_context w cfg options)" w options
      "completion w" "stages cfg" "[]" "[]"]
  obtain out k where out: "runValidation w cfg options = Some out"
    and k: "k \<le> length (stages cfg)"
    and started: "started_checks out
         = concat (map (\<lambda>st. map plugin_name (tasks st)) (take k (stages cfg)))"
    and ok: "ok out \<longrightarrow> k = length (stages cfg)" and nok: "\<not> ok out \<longrightarrow> 0 < k"
    by (auto simp: runValidation_def)
  have "plugin_name t \<in> set (started_checks out)"
    if "stages cfg = st # sts" "t \<in> set (tasks st)" for st sts t
  proof -
    from that(1) ok nok have "0 < k" by (cases "ok out") simp_all
    then obtain j where "k = Suc j" by (cases k) simp_all
    with that show ?thesis by (simp add: started)
  qed
  with out show ?thesis by blast
qed

lemma parseArgs_options:
  "parseArgs n (a0 # a1 # args) = (cmd, opts) \<Longrightarrow> opts = foldl (parse_arg n) no_options args"
  by (auto simp: parseArgs_def)

lemma validate_summary:
  assumes "cli_report opts \<in> {None, Some Summary}"
  shows "report (run_options_of dw cmd opts) = Summary"
    and "case loadUserConfig dw (run_dir dw opts) of
           Rejected err \<Rightarrow> validate dw cmd opts = Some (fatal err)
         | Resolved loaded \<Rightarrow>
             (\<exists>out. runValidation (world dw) (config_to_run dw loaded)
                      (run_options_of dw cmd opts) = Some out
                \<and> validate dw cmd opts
                    = Some \<lparr>exit_status = Some (if ok out then 0 else 1),
                            printed_error = None,
                            action = TerminalReport (results out)
                                       (opt_ci (run_options_of dw cmd opts))
                                       (quiet (run_options_of dw cmd opts))
                                       (verbose (run_options_of dw cmd opts)),
                            checks_started = started_checks out\<rparr>
                \<and> (\<forall>st sts t. stages (config_to_run dw loaded) = st # sts
                       \<and> t \<in> set (tasks st)
                     \<longrightarrow> plugin_name t \<in> set (started_checks out)))"
proof -
  show r: "report (run_options_of dw cmd opts) = Summary"
    using assms by (auto simp: run_options_of_def buildOptions_def)
  show "case loadUserConfig dw (run_dir dw opts) of
           Rejected err \<Rightarrow> validate dw cmd opts = Some (fatal err)
         | Resolved loaded \<Rightarrow>
             (\<exists>out. runValidation (world dw) (config_to_run dw loaded)
                      (run_options_of dw cmd opts) = Some out
                \<and> validate dw cmd opts
                    = Some \<lparr>exit_status = Some (if ok out then 0 else 1),
                            printed_error = None,
                            action = TerminalReport (results out)
                                       (opt_ci (run_options_of dw cmd opts))
                                       (quiet (run_options_of dw cmd opts))
                                       (verbose (run_options_of dw cmd opts)),
                            checks_started = started_checks out\<rparr>
                \<and> (\<forall>st sts t. stages (config_to_run dw loaded) = st # sts
                       \<and> t \<in> set (tasks st)
                     \<longrightarrow> plugin_name t \<in> set (started_checks out)))"
  proof (cases "loadUserConfig dw (run_dir dw opts)")
    case (Rejected err)
    then show ?thesis by (simp add: validate_def)
  next
    case (Resolved loaded)
    from runValidation_starts_first_stage
      [of "world dw" "config_to_run dw loaded" "run_options_of dw cmd opts"]
    obtain out where out: "runValidation (world dw) (config_to_run dw loaded)
          (run_options_of dw cmd opts) = Some out"
      and first: "\<forall>st sts t. stages (config_to_run dw loaded) = st # sts \<and> t \<in> set (tasks st)
                     \<longrightarrow> plugin_name t \<in> set (started_checks out)"
      by blast
    have "validate dw cmd opts
          = Some \<lparr>exit_status = Some (if ok out then 0 else 1),
                  printed_error = None,
                  action = TerminalReport (results out)
                             (opt_ci (run_options_of dw cmd opts))
                             (quiet (run_options_of dw cmd opts))
                             (verbose (run_options_of dw cmd opts)),
                  checks_started = started_checks out\<rparr>"
      using Resolved out r by (simp add: validate_def call_reporter_def)
    with out first Resolved show ?thesis by simp
  qed
qed

text \<open>
  Claim C7, as amended. The value the parser reads from an argument \<open>--report=...\<close> is the
  text up to the next equals sign, and from a bare \<open>--report\<close> it is \<open>true\<close>. When that
  value is none of \<open>summary\<close>, \<open>json\<close> and \<open>junit\<close>, the argument is ignored, wherever it
  stands in the argument vector: the driver does exactly what it does without the
  argument. If moreover no other argument asks for the help text or the version or names
  the \<open>json\<close> or \<open>junit\<close> reporter, and the command is not \<open>init\<close>, the reporter is
  \<open>summary\<close> and the driver loads the configuration. When loading throws, the error handler
  prints the error and exits with 1. Otherwise \<open>runValidation\<close> is run on the
  configuration and every check of its first stage is started, the results go to the
  terminal reporter, the error handler prints nothing, and the exit code is 0 when the run
  is ok and 1 when it is not.
\<close>

theorem unknown_reporter_is_ignored:
  assumes unknown: "takeWhile (\<lambda>c. c \<noteq> CHR ''='') v \<notin> {''summary'', ''json'', ''junit''}"
    and arg: "a = report_arg v \<or> a = ''--report''"
    and parsed: "parseArgs (to_number dw) (a0 # a1 # xs @ [a] @ ys) = (cmd, opts)"
  shows "main dw (a0 # a1 # xs @ [a] @ ys) = main dw (a0 # a1 # xs @ ys)
     \<and> ((\<forall>b\<in>set (xs @ ys).
            fst (key_value b) \<notin> {''--help'', ''-h'', ''--version'', ''-v''}
            \<and> \<not> (fst (key_value b) = ''--report'' \<and> snd (key_value b) \<in> {''json'', ''junit''}))
         \<and> cmd \<noteq> ''init''
        \<longrightarrow> report (run_options_of dw cmd opts) = Summary
          \<and> (case loadUserConfig dw (run_dir dw opts) of
               Rejected err \<Rightarrow> main dw (a0 # a1 # xs @ [a] @ ys) = Some (fatal err)
             | Resolved loaded \<Rightarrow>
                 (\<exists>out. runValidation (world dw) (config_to_run dw loaded)
                          (run_options_of dw cmd opts) = Some out
                    \<and> main dw (a0 # a1 # xs @ [a] @ ys)
                        = Some \<lparr>exit_status = Some (if ok out then 0 else 1),
                                printed_error = None,
                                action = TerminalReport (results out)
                                           (opt_ci (run_options_of dw cmd opts))
                                           (quiet (run_options_of dw cmd opts))
                                           (verbose (run_options_of dw cmd opts)),
                                checks_started = started_checks out\<rparr>
                    \<and> (\<forall>st sts t. stages (config_to_run dw loaded) = st # sts
                           \<and> t \<in> set (tasks st)
                         \<longrightarrow> plugin_name t \<in> set (started_checks out)))))"
proof (intro conjI impI)
  have eq: "parseArgs (to_number dw) (a0 # a1 # xs @ [a] @ ys)
            = parseArgs (to_number dw) (a0 # a1 # xs @ ys)"
    by (rule parseArgs_skip) (rule unknown_report_arg [OF unknown arg])+
  show "main dw (a0 # a1 # xs @ [a] @ ys) = main dw (a0 # a1 # xs @ ys)"
    by (simp only: main_def eq)
  assume rest: "(\<forall>b\<in>set (xs @ ys).
            fst (key_value b) \<notin> {''--help'', ''-h'', ''--version'', ''-v''}
            \<and> \<not> (fst (key_value b) = ''--report'' \<and> snd (key_value b) \<in> {''json'', ''junit''}))
         \<and> cmd \<noteq> ''init''"
  from parsed eq have opts: "opts = foldl (parse_arg (to_number dw)) no_options (xs @ ys)"
    by (intro parseArgs_options [of _ a0 a1 _ cmd]) simp
  have "cli_help opts = cli_help no_options"
    unfolding opts by (rule foldl_keeps_help) (use rest in simp)
  then have h: "\<not> truthy (cli_help opts)" by (simp add: no_options_def truthy_def)
  have "cli_version opts = cli_version no_options"
    unfolding opts by (rule foldl_keeps_version) (use rest in simp)
  then have v: "\<not> truthy (cli_version opts)" by (simp add: no_options_def truthy_def)
  have r: "cli_report opts \<in> {None, Some Summary}"
    unfolding opts by (rule foldl_report_summary) (use rest in \<open>simp_all add: no_options_def\<close>)
  have m: "main dw (a0 # a1 # xs @ [a] @ ys) = validate dw cmd opts"
    unfolding main_def parsed using h v rest by simp
  show "report (run_options_of dw cmd opts) = Summary"
    by (rule validate_summary(1) [OF r])
  show "case loadUserConfig dw (run_dir dw opts) of
               Rejected err \<Rightarrow> main dw (a0 # a1 # xs @ [a] @ ys) = Some (fatal err)
             | Resolved loaded \<Rightarrow>
                 (\<exists>out. runValidation (world dw) (config_to_run dw loaded)
                          (run_options_of dw cmd opts) = Some out
                    \<and> main dw (a0 # a1 # xs @ [a] @ ys)
                        = Some \<lparr>exit_status = Some (if ok out then 0 else 1),
                                printed_error = None,
                                action = TerminalReport (results out)
                                           (opt_ci (run_options_of dw cmd opts))
                                           (quiet (run_options_of dw cmd opts))
                                           (verbose (run_options_of dw cmd opts)),
                                checks_started = started_checks out\<rparr>
                    \<and> (\<forall>st sts t. stages (config_to_run dw loaded) = st # sts
                           \<and> t \<in> set (tasks st)
                         \<longrightarrow> plugin_name t \<in> set (started_checks out)))"
    unfolding m by (rule validate_summary(2) [OF r])
qed

text \<open>The invocation \<open>hex-validate full --report=xml\<close> on a configuration whose only check
  passes.\<close>

theorem unknown_reporter_is_ignored_witness:
  "main demo_driver [''node'', ''hex-validate'', ''full'', report_arg ''xml'']
     = main demo_driver [''node'', ''hex-validate'', ''full'']
   \<and> main demo_driver [''node'', ''hex-validate'', ''full'', report_arg ''xml'']
       = Some \<lparr>exit_status = Some 0, printed_error = None,
               action = TerminalReport
                          [(blank_result ''P'' Pass)\<lparr>durationMs := Some 1, stage := Some ''A''\<rparr>]
                          False (Some False) (Some False),
               checks_started = [''P'']\<rparr>"
proof -
  have u: "takeWhile (\<lambda>c. c \<noteq> CHR ''='') ''xml'' \<notin> {''summary'', ''json'', ''junit''}"
    by simp
  have p: "parseArgs (to_number demo_driver)
             (''node'' # ''hex-validate'' # [''full''] @ [report_arg ''xml''] @ [])
           = (''full'', no_options)"
    by (simp add: parseArgs_def parse_arg_def key_value_def report_arg_def startsWithDash_def
        parse_report_def)
  have rest: "(\<forall>b\<in>set ([''full''] @ []).
            fst (key_value b) \<notin> {''--help'', ''-h'', ''--version'', ''-v''}
            \<and> \<not> (fst (key_value b) = ''--report'' \<and> snd (key_value b) \<in> {''json'', ''junit''}))
         \<and> ''full'' \<noteq> ''init''"
    by (simp add: key_value_def)
  have l: "loadUserConfig demo_driver (run_dir demo_driver no_options)
           = Resolved (Some passing_config)"
    by (simp add: demo_driver_def)
  note t = unknown_reporter_is_ignored [OF u disjI1 [OF refl] p]
  from t have a: "main demo_driver [''node'', ''hex-validate'', ''full'', report_arg ''xml'']
     = main demo_driver [''node'', ''hex-validate'', ''full'']"
    by simp
  from t rest l obtain out where
    o: "runValidation (world demo_driver) (config_to_run demo_driver (Some passing_config))
          (run_options_of demo_driver ''full'' no_options) = Some out" and
    m: "main demo_driver (''node'' # ''hex-validate'' # [''full''] @ [report_arg ''xml''] @ [])
        = Some \<lparr>exit_status = Some (if ok out then 0 else 1),
                printed_error = None,
                action = TerminalReport (results out)
                           (opt_ci (run_options_of demo_driver ''full'' no_options))
                           (quiet (run_options_of demo_driver ''full'' no_options))
                           (verbose (run_options_of demo_driver ''full'' no_options)),
                checks_started = started_checks out\<rparr>"
    by auto
  from o have out: "out = \<lparr>ok = True,
      results = [(blank_result ''P'' Pass)\<lparr>durationMs := Some 1, stage := Some ''A''\<rparr>],
      started_checks = [''P'']\<rparr>"
    by (simp add: config_to_run_def runValidation_def passing_config_def run_stage_def
        runSequential_def wrappedTask_def runTask_def fixed_check_def blank_result_def
        stage_aborts_def truthy_def)
  have f: "opt_ci (run_options_of demo_driver ''full'' no_options) = False
     \<and> quiet (run_options_of demo_driver ''full'' no_options) = Some False
     \<and> verbose (run_options_of demo_driver ''full'' no_options) = Some False"
    by (simp add: run_options_of_def buildOptions_def run_mode_def no_options_def
        demo_driver_def truthy_string_def)
  from m out f
  have "main demo_driver [''node'', ''hex-validate'', ''full'', report_arg ''xml'']
       = Some \<lparr>exit_status = Some 0, printed_error = None,
               action = TerminalReport
                          [(blank_result ''P'' Pass)\<lparr>durationMs := Some 1, stage := Some ''A''\<rparr>]
                          False (Some False) (Some False),
               checks_started = [''P'']\<rparr>"
    by simp
  with a show ?thesis by (rule conjI)
qed

text \<open>
  Claim C7 as stated fails: with \<open>--report=xml\<close> and a configuration whose only check
  passes, the check is run, the error handler prints nothing and the exit code is 0.
\<close>

theorem unknown_reporter_counterexample:
  "map_option exit_status (main demo_driver [''node'', ''hex-validate'', ''full'', ''--report=xml''])
     = Some (Some 0)
   \<and> map_option printed_error
        (main demo_driver [''node'', ''hex-validate'', ''full'', ''--report=xml'']) = Some None
   \<and> map_option checks_started
        (main demo_driver [''node'', ''hex-validate'', ''full'', ''--report=xml'']) = Some [''P'']"
  by (simp add: main_def validate_def run_options_of_def run_dir_def run_mode_def
      config_to_run_def call_reporter_def parseArgs_def parse_arg_def key_value_def
      startsWithDash_def no_options_def parse_report_def truthy_def truthy_string_def
      demo_driver_def buildOptions_def runValidation_def passing_config_def run_stage_def
      runSequential_def wrappedTask_def runTask_def fixed_check_def blank_result_def
      stage_aborts_def demo_world_def Let_def)

section \<open>The tool prober\<close>

lemma isDigit_not_dot [simp]: "\<not> isDigit CHR ''.''"
  by (simp add: isDigit_def)

lemma isDigit_not_v [simp]: "\<not> isDigit CHR ''v''"
  by (simp add: isDigit_def)

lemma isSpace_not_digit: "isSpace c \<Longrightarrow> \<not> isDigit c"
  by (auto simp: isSpace_def isDigit_def)

lemma isSpace_not_v: "isSpace c \<Longrightarrow> c \<noteq> CHR ''v''"
  by (auto simp: isSpace_def)

lemma isSpace_not_dot: "isSpace c \<Longrightarrow> c \<noteq> CHR ''.''"
  by (auto simp: isSpace_def)

lemma digits1_Some:
  "digits1 s = Some (d, r) \<Longrightarrow> s = d @ r \<and> is_number d \<and> (r = [] \<or> \<not> isDigit (hd r))"
  by (auto simp: digits1_def is_number_def list_all_iff hd_dropWhile split: if_splits
      dest: set_takeWhileD)

lemma digits1_number:
  "is_number a \<Longrightarrow> digits1 (a @ rest) = Some (a @ takeWhile isDigit rest, dropWhile isDigit rest)"
  by (simp add: digits1_def is_number_def list_all_iff takeWhile_append2 dropWhile_append2)

lemma dot_Some: "dot s = Some r \<Longrightarrow> s = CHR ''.'' # r"
  by (auto simp: dot_def split: list.splits if_splits)

lemma dot_Cons [simp]: "dot (CHR ''.'' # r) = Some r"
  by (simp add: dot_def)

lemma match_core_sound:
  assumes "match_core t = Some m"
  shows "\<exists>a b c rest. is_number a \<and> is_number b \<and> is_number c
           \<and> m = a @ ''.'' @ b @ ''.'' @ c \<and> t = m @ rest"
proof -
  from assms obtain d1 r1 r1' d2 r2 r2' d3 r3 where
    s: "digits1 t = Some (d1, r1)" "dot r1 = Some r1'" "digits1 r1' = Some (d2, r2)"
       "dot r2 = Some r2'" "digits1 r2' = Some (d3, r3)"
    and m: "m = d1 @ ''.'' @ d2 @ ''.'' @ d3"
    by (auto simp: match_core_def split: option.splits prod.splits)
  from s have "t = d1 @ CHR ''.'' # d2 @ CHR ''.'' # d3 @ r3"
    by (auto dest!: digits1_Some dot_Some)
  with s m show ?thesis
    by (intro exI [of _ d1] exI [of _ d2] exI [of _ d3] exI [of _ r3])
       (auto dest!: digits1_Some)
qed

lemma match_core_complete:
  assumes "is_number a" "is_number b" "is_number c"
  shows "match_core (a @ ''.'' @ b @ ''.'' @ c @ rest)
         = Some (a @ ''.'' @ b @ ''.'' @ c @ takeWhile isDigit rest)"
proof -
  have 1: "digits1 (a @ CHR ''.'' # b @ CHR ''.'' # c @ rest)
           = Some (a, CHR ''.'' # b @ CHR ''.'' # c @ rest)"
    using digits1_number [OF assms(1), of "CHR ''.'' # b @ CHR ''.'' # c @ rest"] by simp
  have 2: "digits1 (b @ CHR ''.'' # c @ rest) = Some (b, CHR ''.'' # c @ rest)"
    using digits1_number [OF assms(2), of "CHR ''.'' # c @ rest"] by simp
  have 3: "digits1 (c @ rest) = Some (c @ takeWhile isDigit rest, dropWhile isDigit rest)"
    by (rule digits1_number [OF assms(3)])
  show ?thesis by (simp add: match_core_def 1 2 3)
qed

lemma split_on_nonempty: "split_on c s \<noteq> []"
  by (induction s) (auto split: list.splits)

lemma join_Cons: "ys \<noteq> [] \<Longrightarrow> join sep (x # ys) = x @ sep @ join sep ys"
  by (cases ys) simp_all

lemma join_split_on: "join [c] (split_on c s) = s"
proof (induction s)
  case Nil
  show ?case by simp
next
  case (Cons x xs)
  show ?case
  proof (cases "x = c")
    case True
    with Cons show ?thesis by (simp add: join_Cons split_on_nonempty)
  next
    case False
    obtain l ls where sp: "split_on c xs = l # ls"
      using split_on_nonempty [of c xs] by (cases "split_on c xs") auto
    with Cons have "join [c] (l # ls) = xs" by simp
    then have "join [c] ((x # l) # ls) = x # xs"
      by (cases ls) simp_all
    with False sp show ?thesis by simp
  qed
qed

lemma number_no_dot: "is_number a \<Longrightarrow> CHR ''.'' \<notin> set a"
  by (auto simp: is_number_def list_all_iff)

lemma number_not_v: "is_number a \<Longrightarrow> take 1 (a @ rest) \<noteq> ''v''"
  by (cases a) (auto simp: is_number_def)

lemma split_version:
  assumes "is_number a" "is_number b" "is_number c"
  shows "split_on CHR ''.'' (a @ ''.'' @ b @ ''.'' @ c) = [a, b, c]"
proof -
  have "split_on CHR ''.'' (a @ CHR ''.'' # b @ CHR ''.'' # c)
        = a # split_on CHR ''.'' (b @ CHR ''.'' # c)"
    by (rule split_on_prefix) (rule number_no_dot [OF assms(1)])
  also have "split_on CHR ''.'' (b @ CHR ''.'' # c) = b # split_on CHR ''.'' c"
    by (rule split_on_prefix) (rule number_no_dot [OF assms(2)])
  also have "split_on CHR ''.'' c = [c]"
    by (rule split_on_no_sep) (rule number_no_dot [OF assms(3)])
  finally show ?thesis by simp
qed

lemma matches_patternI:
  assumes "is_number a" "is_number b" "is_number c"
  shows "matches_pattern (a @ ''.'' @ b @ ''.'' @ c)"
    and "matches_pattern (CHR ''v'' # a @ ''.'' @ b @ ''.'' @ c)"
proof -
  have "strip_v (a @ ''.'' @ b @ ''.'' @ c) = a @ ''.'' @ b @ ''.'' @ c"
    using number_not_v [OF assms(1), of "''.'' @ b @ ''.'' @ c"] by (simp add: strip_v_def)
  then show "matches_pattern (a @ ''.'' @ b @ ''.'' @ c)"
    using assms split_version [OF assms] by (simp add: matches_pattern_def)
  have "strip_v (CHR ''v'' # a @ ''.'' @ b @ ''.'' @ c) = a @ ''.'' @ b @ ''.'' @ c"
    by (simp add: strip_v_def)
  then show "matches_pattern (CHR ''v'' # a @ ''.'' @ b @ ''.'' @ c)"
    using assms split_version [OF assms] by (simp add: matches_pattern_def)
qed

lemma matches_patternD:
  assumes "matches_pattern w"
  shows "\<exists>a b c. is_number a \<and> is_number b \<and> is_number c
           \<and> strip_v w = a @ ''.'' @ b @ ''.'' @ c"
proof -
  from assms obtain a b c where sp: "split_on CHR ''.'' (strip_v w) = [a, b, c]"
    and n: "is_number a" "is_number b" "is_number c"
    by (auto simp: matches_pattern_def split: list.splits)
  have "strip_v w = join ''.'' (split_on CHR ''.'' (strip_v w))"
    by (simp add: join_split_on)
  then have "strip_v w = a @ ''.'' @ b @ ''.'' @ c" by (simp add: sp)
  with n show ?thesis by blast
qed

lemma match_here_sound:
  assumes "match_here t = Some (whole, cap)"
  shows "matches_pattern whole \<and> cap = strip_v whole \<and> (\<exists>rest. t = whole @ rest)"
proof (cases "take 1 t = ''v'' \<and> match_core (drop 1 t) \<noteq> None")
  case True
  then obtain m where m: "match_core (drop 1 t) = Some m" by auto
  with True assms have w: "whole = CHR ''v'' # m" "cap = m" by (auto simp: match_here_def)
  from match_core_sound [OF m] obtain a b c rest where
    n: "is_number a" "is_number b" "is_number c" and
    e: "m = a @ ''.'' @ b @ ''.'' @ c" "drop 1 t = m @ rest" by blast
  from True have "t = CHR ''v'' # drop 1 t" by (cases t) auto
  with e have "t = whole @ rest" by (simp add: w)
  moreover have "matches_pattern whole" unfolding w e by (rule matches_patternI(2) [OF n])
  moreover have "cap = strip_v whole" by (simp add: w strip_v_def)
  ultimately show ?thesis by blast
next
  case False
  with assms have m: "match_core t = Some whole" "cap = whole"
    by (auto simp: match_here_def split: if_splits option.splits)
  from match_core_sound [OF m(1)] obtain a b c rest where
    n: "is_number a" "is_number b" "is_number c" and
    e: "whole = a @ ''.'' @ b @ ''.'' @ c" "t = whole @ rest" by blast
  have "matches_pattern whole" unfolding e by (rule matches_patternI(1) [OF n])
  moreover have "strip_v whole = whole"
    unfolding e using number_not_v [OF n(1), of "''.'' @ b @ ''.'' @ c"]
    by (simp add: strip_v_def)
  ultimately show ?thesis using m(2) e(2) by auto
qed

lemma match_here_complete:
  assumes "matches_pattern w"
  shows "\<exists>whole cap. match_here (w @ rest) = Some (whole, cap) \<and> length w \<le> length whole"
proof -
  from matches_patternD [OF assms] obtain a b c where
    n: "is_number a" "is_number b" "is_number c" and
    e: "strip_v w = a @ ''.'' @ b @ ''.'' @ c" by blast
  have core: "match_core (a @ ''.'' @ b @ ''.'' @ c @ rest)
              = Some (a @ ''.'' @ b @ ''.'' @ c @ takeWhile isDigit rest)"
    by (rule match_core_complete [OF n])
  show ?thesis
  proof (cases "take 1 w = ''v''")
    case True
    with e have w: "w = CHR ''v'' # a @ ''.'' @ b @ ''.'' @ c"
      by (cases w) (auto simp: strip_v_def)
    have "match_here (w @ rest)
          = Some (CHR ''v'' # a @ ''.'' @ b @ ''.'' @ c @ takeWhile isDigit rest,
                  a @ ''.'' @ b @ ''.'' @ c @ takeWhile isDigit rest)"
      using core by (simp add: match_here_def w)
    then show ?thesis by (simp add: w)
  next
    case False
    with e have w: "w = a @ ''.'' @ b @ ''.'' @ c" by (simp add: strip_v_def)
    have nv: "take 1 (w @ rest) \<noteq> ''v''"
      unfolding w using number_not_v [OF n(1), of "''.'' @ b @ ''.'' @ c @ rest"] by simp
    have "match_here (w @ rest)
          = Some (a @ ''.'' @ b @ ''.'' @ c @ takeWhile isDigit rest,
                  a @ ''.'' @ b @ ''.'' @ c @ takeWhile isDigit rest)"
      using core nv by (simp add: match_here_def) (simp add: w)
    then show ?thesis by (simp add: w)
  qed
qed

lemma not_matches_Nil: "\<not> matches_pattern []"
  by (simp add: matches_pattern_def strip_v_def)

lemma version_match_None:
  "version_match s = None \<Longrightarrow> s = pre @ w @ post \<Longrightarrow> \<not> matches_pattern w"
proof (induction s arbitrary: pre)
  case Nil
  then show ?case by (simp add: not_matches_Nil)
next
  case (Cons c cs)
  from Cons.prems(1) have mh: "match_here (c # cs) = None" and vm: "version_match cs = None"
    by (auto split: option.splits)
  show ?case
  proof (cases pre)
    case Nil
    with Cons.prems(2) have "c # cs = w @ post" by simp
    with mh match_here_complete [of w post] show ?thesis by auto
  next
    case (Cons p ps)
    with Cons.prems(2) have "cs = ps @ w @ post" by simp
    with vm show ?thesis by (rule Cons.IH)
  qed
qed

lemma version_match_Some:
  "version_match s = Some (whole, cap) \<Longrightarrow>
   \<exists>pre post. s = pre @ whole @ post \<and> matches_pattern whole \<and> cap = strip_v whole
     \<and> (\<forall>pre' w' post'. s = pre' @ w' @ post' \<and> matches_pattern w'
           \<longrightarrow> length pre \<le> length pre'
               \<and> (length pre' = length pre \<longrightarrow> length w' \<le> length whole))"
proof (induction s)
  case Nil
  then show ?case by (simp add: match_here_def match_core_def digits1_def)
next
  case (Cons c cs)
  show ?case
  proof (cases "match_here (c # cs)")
    case (Some r)
    with Cons.prems have mh: "match_here (c # cs) = Some (whole, cap)" by simp
    from match_here_sound [OF mh] obtain rest where
      a: "matches_pattern whole" "cap = strip_v whole" "c # cs = whole @ rest" by blast
    have q: "\<forall>pre' w' post'. c # cs = pre' @ w' @ post' \<and> matches_pattern w'
           \<longrightarrow> length ([] :: string) \<le> length pre'
               \<and> (length pre' = length ([] :: string) \<longrightarrow> length w' \<le> length whole)"
    proof (intro allI impI, elim conjE)
      fix pre' w' post'
      assume e: "c # cs = pre' @ w' @ post'" and m: "matches_pattern w'"
      show "length ([] :: string) \<le> length pre'
            \<and> (length pre' = length ([] :: string) \<longrightarrow> length w' \<le> length whole)"
      proof (intro conjI impI)
        show "length ([] :: string) \<le> length pre'" by simp
        assume "length pre' = length ([] :: string)"
        then have "c # cs = w' @ post'" using e by simp
        with match_here_complete [OF m, of post'] mh show "length w' \<le> length whole" by auto
      qed
    qed
    show ?thesis
    proof (rule exI [of _ "[]"], rule exI [of _ rest], intro conjI)
      show "c # cs = [] @ whole @ rest" using a(3) by simp
      show "matches_pattern whole" by (rule a(1))
      show "cap = strip_v whole" by (rule a(2))
      show "\<forall>pre' w' post'. c # cs = pre' @ w' @ post' \<and> matches_pattern w'
           \<longrightarrow> length ([] :: string) \<le> length pre'
               \<and> (length pre' = length ([] :: string) \<longrightarrow> length w' \<le> length whole)"
        by (rule q)
    qed
  next
    case None
    with Cons.prems have vm: "version_match cs = Some (whole, cap)" by simp
    from Cons.IH [OF vm] obtain pre post where
      a: "cs = pre @ whole @ post" "matches_pattern whole" "cap = strip_v whole" and
      b: "\<forall>pre' w' post'. cs = pre' @ w' @ post' \<and> matches_pattern w'
           \<longrightarrow> length pre \<le> length pre'
               \<and> (length pre' = length pre \<longrightarrow> length w' \<le> length whole)"
      by blast
    have q: "\<forall>pre' w' post'. c # cs = pre' @ w' @ post' \<and> matches_pattern w'
           \<longrightarrow> length (c # pre) \<le> length pre'
               \<and> (length pre' = length (c # pre) \<longrightarrow> length w' \<le> length whole)"
    proof (intro allI impI, elim conjE)
      fix pre' w' post'
      assume e: "c # cs = pre' @ w' @ post'" and m: "matches_pattern w'"
      show "length (c # pre) \<le> length pre'
            \<and> (length pre' = length (c # pre) \<longrightarrow> length w' \<le> length whole)"
      proof (cases pre')
        case Nil
        with e have "c # cs = w' @ post'" by simp
        with match_here_complete [OF m, of post'] None show ?thesis by auto
      next
        case (Cons p ps)
        with e have "cs = ps @ w' @ post'" by simp
        with b m have "length pre \<le> length ps
               \<and> (length ps = length pre \<longrightarrow> length w' \<le> length whole)" by blast
        with Cons show ?thesis by simp
      qed
    qed
    show ?thesis
    proof (rule exI [of _ "c # pre"], rule exI [of _ post], intro conjI)
      show "c # cs = (c # pre) @ whole @ post" using a(1) by simp
      show "matches_pattern whole" by (rule a(2))
      show "cap = strip_v whole" by (rule a(3))
      show "\<forall>pre' w' post'. c # cs = pre' @ w' @ post' \<and> matches_pattern w'
           \<longrightarrow> length (c # pre) \<le> length pre'
               \<and> (length pre' = length (c # pre) \<longrightarrow> length w' \<le> length whole)"
        by (rule q)
    qed
  qed
qed

lemma match_here_space: "isSpace c \<Longrightarrow> match_here (c # cs) = None"
  by (auto simp: match_here_def match_core_def digits1_def
      dest: isSpace_not_digit isSpace_not_v)

lemma version_match_dropWhile: "version_match (dropWhile isSpace s) = version_match s"
  by (induction s) (auto simp: match_here_space)

lemma takeWhile_append_none:
  "\<forall>x\<in>set ws. \<not> P x \<Longrightarrow> takeWhile P (t @ ws) = takeWhile P t"
  by (induction t) (auto simp: takeWhile_eq_Nil_iff)

lemma dropWhile_append_none:
  "\<forall>x\<in>set ws. \<not> P x \<Longrightarrow> dropWhile P (t @ ws) = dropWhile P t @ ws"
  by (induction t) (auto simp: dropWhile_eq_self_iff)

lemma digits1_append_spaces:
  assumes "list_all isSpace ws"
  shows "digits1 (t @ ws) = map_option (\<lambda>(d, r). (d, r @ ws)) (digits1 t)"
proof -
  have n: "\<forall>x\<in>set ws. \<not> isDigit x"
    using assms by (auto simp: list_all_iff dest: isSpace_not_digit)
  show ?thesis
    by (simp add: digits1_def takeWhile_append_none [OF n] dropWhile_append_none [OF n])
qed

lemma dot_append_spaces:
  assumes "list_all isSpace ws"
  shows "dot (r @ ws) = map_option (\<lambda>r'. r' @ ws) (dot r)"
proof (cases r)
  case Nil
  with assms show ?thesis
    by (cases ws) (auto simp: dot_def dest: isSpace_not_dot)
next
  case (Cons c cs)
  then show ?thesis by (simp add: dot_def)
qed

lemma match_core_append_spaces:
  assumes "list_all isSpace ws"
  shows "match_core (t @ ws) = match_core t"
  unfolding match_core_def
  by (auto simp: digits1_append_spaces [OF assms] dot_append_spaces [OF assms]
      split: option.splits)

lemma match_here_append_spaces:
  assumes "list_all isSpace ws"
  shows "match_here (t @ ws) = match_here t"
proof (cases t)
  case Nil
  have "match_here ws = None"
    using assms by (cases ws) (auto simp: match_here_space, simp add: match_here_def
        match_core_def digits1_def)
  moreover have "match_here [] = None" by (simp add: match_here_def match_core_def digits1_def)
  ultimately show ?thesis using Nil by simp
next
  case (Cons c cs)
  have "match_core (cs @ ws) = match_core cs" "match_core (c # cs @ ws) = match_core (c # cs)"
    using match_core_append_spaces [OF assms, of cs]
      match_core_append_spaces [OF assms, of "c # cs"] by simp_all
  then show ?thesis by (auto simp: match_here_def Cons split: option.splits)
qed

lemma version_match_spaces: "list_all isSpace ws \<Longrightarrow> version_match ws = None"
proof (induction ws)
  case Nil
  show ?case by (simp add: match_here_def match_core_def digits1_def)
next
  case (Cons c cs)
  then show ?case by (simp add: match_here_space)
qed

lemma version_match_append_spaces:
  assumes "list_all isSpace ws"
  shows "version_match (t @ ws) = version_match t"
proof (induction t)
  case Nil
  show ?case
    using version_match_spaces [OF assms]
    by (simp add: match_here_def match_core_def digits1_def)
next
  case (Cons c cs)
  have "match_here (c # cs @ ws) = match_here (c # cs)"
    using match_here_append_spaces [OF assms, of "c # cs"] by simp
  with Cons show ?case by (auto split: option.splits)
qed

lemma version_match_trim: "version_match (trim s) = version_match s"
proof -
  let ?u = "dropWhile isSpace s"
  let ?ws = "rev (takeWhile isSpace (rev ?u))"
  have "rev (takeWhile isSpace (rev ?u) @ dropWhile isSpace (rev ?u)) = rev (rev ?u)"
    by (simp only: takeWhile_dropWhile_id)
  then have "rev (dropWhile isSpace (rev ?u)) @ rev (takeWhile isSpace (rev ?u)) = ?u"
    by (simp only: rev_append rev_rev_ident)
  then have u: "?u = trim s @ ?ws" by (simp only: trim_def)
  have ws: "list_all isSpace ?ws"
    by (auto simp: list_all_iff dest: set_takeWhileD)
  have "version_match (trim s) = version_match (trim s @ ?ws)"
    by (rule version_match_append_spaces [OF ws, symmetric])
  also have "\<dots> = version_match ?u" using u by simp
  also have "\<dots> = version_match s" by (rule version_match_dropWhile)
  finally show ?thesis .
qed

lemma version_match_group:
  assumes "version_match s = Some (whole, cap)"
  shows "cap \<noteq> []"
proof -
  from version_match_Some [OF assms] have m: "matches_pattern whole" and g: "cap = strip_v whole"
    by blast+
  from matches_patternD [OF m] show ?thesis
    unfolding g by (auto simp: is_number_def)
qed

lemma on_close_version:
  "version (on_close command (Some 0) out err)
     = (case version_match out of
          Some (whole, cap) \<Rightarrow> Some cap
        | None \<Rightarrow> map_option snd (version_match err))"
proof (cases "version_match out")
  case None
  show ?thesis
  proof (cases "version_match err")
    case None
    with \<open>version_match out = None\<close> show ?thesis
      by (simp add: on_close_def Let_def version_match_trim)
  next
    case (Some r)
    obtain whole cap where r: "r = (whole, cap)" by (cases r)
    from Some r have e: "version_match err = Some (whole, cap)" by simp
    have ne: "trim err \<noteq> []"
    proof
      assume "trim err = []"
      then have "version_match (trim err) = None"
        by (simp add: match_here_def match_core_def digits1_def)
      with e show False by (simp add: version_match_trim)
    qed
    from e ne version_match_group [OF e] \<open>version_match out = None\<close> show ?thesis
      by (simp add: on_close_def Let_def version_match_trim)
  qed
next
  case (Some r)
  obtain whole cap where r: "r = (whole, cap)" by (cases r)
  from Some r have e: "version_match out = Some (whole, cap)" by simp
  from e version_match_group [OF e] show ?thesis
    by (simp add: on_close_def Let_def version_match_trim)
qed

text \<open>
  Claim C6, as amended. When the probe process exits non-zero, is killed (as on the
  timeout) or cannot be spawned, the prober returns \<open>available = false\<close>; it is a total
  function and raises in no case. When the probe exits with 0 the tool is available and
  the reported version is capture group 1 of the match in stdout, or of the match in stderr
  when stdout has none. The match is the first occurrence of the pattern
  \<open>v?\d+\.\d+\.\d+\<close> in the text (leftmost, and longest at its position), there is no match
  exactly when the pattern occurs nowhere, and capture group 1 is the match without its
  leading \<open>v\<close>.
\<close>

theorem tool_probe_result:
  assumes "probe (command @ '' '' @ join '' '' args) dir = (ending, out, err)"
  shows "(ending \<noteq> Exited 0 \<longrightarrow> detectTool probe command args dir = unavailable)
   \<and> (ending = Exited 0 \<longrightarrow>
        available (detectTool probe command args dir)
        \<and> version (detectTool probe command args dir)
            = (case version_match out of
                 Some (whole, cap) \<Rightarrow> Some cap
               | None \<Rightarrow> map_option snd (version_match err)))
   \<and> (version_match s = None \<longrightarrow> (\<forall>pre w post. s = pre @ w @ post \<longrightarrow> \<not> matches_pattern w))
   \<and> (version_match s = Some (whole, cap) \<longrightarrow>
        cap = strip_v whole
        \<and> (\<exists>pre post. s = pre @ whole @ post \<and> matches_pattern whole
              \<and> (\<forall>pre' w' post'. s = pre' @ w' @ post' \<and> matches_pattern w'
                    \<longrightarrow> length pre \<le> length pre'
                        \<and> (length pre' = length pre \<longrightarrow> length w' \<le> length whole))))"
proof -
  have a: "ending \<noteq> Exited 0 \<longrightarrow> detectTool probe command args dir = unavailable"
    using assms by (cases ending) (auto simp: detectTool_def on_close_def)
  have b: "ending = Exited 0 \<longrightarrow>
        available (detectTool probe command args dir)
        \<and> version (detectTool probe command args dir)
            = (case version_match out of
                 Some (whole, cap) \<Rightarrow> Some cap
               | None \<Rightarrow> map_option snd (version_match err))"
  proof
    assume e: "ending = Exited 0"
    with assms have d: "detectTool probe command args dir = on_close command (Some 0) out err"
      by (simp add: detectTool_def)
    have "available (on_close command (Some 0) out err)" by (simp add: on_close_def Let_def)
    with d on_close_version [of command out err]
    show "available (detectTool probe command args dir)
        \<and> version (detectTool probe command args dir)
            = (case version_match out of
                 Some (whole, cap) \<Rightarrow> Some cap
               | None \<Rightarrow> map_option snd (version_match err))"
      by simp
  qed
  have c: "version_match s = None \<longrightarrow> (\<forall>pre w post. s = pre @ w @ post \<longrightarrow> \<not> matches_pattern w)"
    using version_match_None by blast
  have d: "version_match s = Some (whole, cap) \<longrightarrow>
        cap = strip_v whole
        \<and> (\<exists>pre post. s = pre @ whole @ post \<and> matches_pattern whole
              \<and> (\<forall>pre' w' post'. s = pre' @ w' @ post' \<and> matches_pattern w'
                    \<longrightarrow> length pre \<le> length pre'
                        \<and> (length pre' = length pre \<longrightarrow> length w' \<le> length whole)))"
  proof
    assume "version_match s = Some (whole, cap)"
    from version_match_Some [OF this]
    show "cap = strip_v whole
        \<and> (\<exists>pre post. s = pre @ whole @ post \<and> matches_pattern whole
              \<and> (\<forall>pre' w' post'. s = pre' @ w' @ post' \<and> matches_pattern w'
                    \<longrightarrow> length pre \<le> length pre'
                        \<and> (length pre' = length pre \<longrightarrow> length w' \<le> length whole)))"
      by blast
  qed
  from a b c d show ?thesis by (intro conjI)
qed

text \<open>A probe that succeeds with the version on standard error.\<close>

theorem tool_probe_result_witness:
  "stderr_prober (''gitleaks'' @ '' '' @ join '' '' [''version'']) ''/repo''
     = (Exited 0, [], ''gitleaks version v8.18.0'' @ [CHR 0x0A])
   \<and> available (detectTool stderr_prober ''gitleaks'' [''version''] ''/repo'')
   \<and> version (detectTool stderr_prober ''gitleaks'' [''version''] ''/repo'') = Some ''8.18.0''"
proof -
  have p: "stderr_prober (''gitleaks'' @ '' '' @ join '' '' [''version'']) ''/repo''
     = (Exited 0, [], ''gitleaks version v8.18.0'' @ [CHR 0x0A])"
    by (simp add: stderr_prober_def)
  have v: "version_match [] = None"
    "map_option snd (version_match (''gitleaks version v8.18.0'' @ [CHR 0x0A])) = Some ''8.18.0''"
    by (simp_all add: match_here_def match_core_def digits1_def dot_def isDigit_def)
  from tool_probe_result [where probe = stderr_prober and command = "''gitleaks''"
      and args = "[''version'']" and dir = "''/repo''" and ending = "Exited 0" and out = "[]"
      and err = "''gitleaks version v8.18.0'' @ [CHR 0x0A]" and s = "[]" and whole = "[]"
      and cap = "[]", OF p] v p
  show ?thesis by simp
qed

text \<open>
  Claim C6 as stated fails for a tool that prints \<open>v1.2.3\<close>: the first occurrence of the
  pattern is \<open>v1.2.3\<close>, the reported version is \<open>1.2.3\<close>.
\<close>

theorem version_without_v_counterexample:
  "v_prober (''tool'' @ '' '' @ join '' '' [''--version'']) ''/repo'' = (Exited 0, ''v1.2.3'', [])
   \<and> matches_pattern ''v1.2.3''
   \<and> version_match ''v1.2.3'' = Some (''v1.2.3'', ''1.2.3'')
   \<and> version (detectTool v_prober ''tool'' [''--version''] ''/repo'') = Some ''1.2.3''"
  by (simp add: v_prober_def detectTool_def on_close_def trim_def isSpace_def match_here_def
      match_core_def digits1_def dot_def isDigit_def Let_def matches_pattern_def strip_v_def
      is_number_def)

end
